theory Spec2Isabelle
  imports Main "HOL-Library.Signed_Division"
begin

section \<open>The recursive tree-to-code compiler of \<^verbatim>\<open>src/compiler/recursive.cc\<close>\<close>

text \<open>
  The compiler turns a decision-tree ensemble into the text of a C function. The
  embedding keeps the shape of the source: the node array of a tree is a list indexed by
  node id, the compiler's block objects are a datatype, and the C text that the compiler
  emits for conditions is kept as a small syntax tree together with the printer that
  produces the characters the source concatenates, so that the emitted conditions can
  be evaluated as well as printed.

  Threshold and leaf values have the type \<open>tl_float\<close> in the source. They are values of
  an arbitrary linear order \<open>'a\<close> here: the development uses only \<open><\<close> and \<open>=\<close>
  on them, as the source does, and covers the ordered (non-NaN) floating-point values,
  with \<open>-0.0\<close> and \<open>0.0\<close> identified as \<open>==\<close> identifies them. The numbers of type
  \<open>double\<close> that the emitted C text compares a \<open>float\<close> with belong to the same order.
\<close>

subsection \<open>Failures\<close>

text \<open>
  Every way in which the source or the emitted C helper can fail to produce a value is a
  constructor: an index outside a vector or array (undefined behaviour in C++ and C),
  a signed \<open>int\<close> computation outside the 32-bit range (undefined behaviour in C), a read
  of the union member that was not written, the fatal \<open>CHECK\<close> of the quantized adapter,
  a negative length given to \<open>resize\<close>, and an annotation file that cannot be loaded.
\<close>

datatype fault = OutOfBounds | IntOverflow | WrongMember | CheckFailed | BadLength | LoadFailed

definition INT_MAX :: int where
  "INT_MAX = 2147483647"

definition INT_MIN :: int where
  "INT_MIN = - 2147483648"

definition c_int :: "int \<Rightarrow> fault + int" where
  "c_int x = (if INT_MIN \<le> x \<and> x \<le> INT_MAX then Inr x else Inl IntOverflow)"

definition rd :: "'a list \<Rightarrow> int \<Rightarrow> fault + 'a" where
  "rd xs i = (if 0 \<le> i \<and> i < int (length xs) then Inr (xs ! nat i) else Inl OutOfBounds)"

subsection \<open>Trees, ensembles and annotations\<close>

text \<open>
  Modelled from the spec: the tree data model of \<^verbatim>\<open>treelite/tree.h\<close>, which is not
  part of the sources at hand. A node is a leaf with its value or a split with feature
  id, default direction, comparison operator, threshold and the two child ids; the
  accessors keep the names the compiler calls. A tree is the vector of its nodes, read
  by node id starting at the root id 0, and an ensemble is the vector of its trees
  together with the feature count.
\<close>

datatype Operator = kEQ | kLT | kLE | kGT | kGE

datatype 'a Node =
    is_leaf: Leaf (leaf_value: 'a)
  | Split (split_index: nat) (default_left: bool) (comparison_op: Operator)
          (threshold: 'a) (cleft: int) (cright: int)

type_synonym 'a Tree = "'a Node list"

record 'a Model =
  trees :: "'a Tree list"
  num_features :: int

type_synonym Annotation = "nat list list"

definition tree_at :: "'a Tree \<Rightarrow> int \<Rightarrow> fault + 'a Node" where
  "tree_at tree nid = rd tree nid"

text \<open>
  Modelled from the spec: \<open>semantic::OpName\<close> of \<^verbatim>\<open>treelite/semantic.h\<close>, the C
  spelling of a comparison operator, and the truth value of the comparison it denotes.
\<close>

definition OpName :: "Operator \<Rightarrow> string" where
  "OpName op = (case op of kEQ \<Rightarrow> ''=='' | kLT \<Rightarrow> ''<'' | kLE \<Rightarrow> ''<=''
                         | kGT \<Rightarrow> ''>'' | kGE \<Rightarrow> ''>='')"

definition OpEval :: "Operator \<Rightarrow> 'b::linorder \<Rightarrow> 'b \<Rightarrow> bool" where
  "OpEval op x y = (case op of kEQ \<Rightarrow> x = y | kLT \<Rightarrow> x < y | kLE \<Rightarrow> x \<le> y
                            | kGT \<Rightarrow> x > y | kGE \<Rightarrow> x \<ge> y)"

subsection \<open>Decimal output\<close>

text \<open>\<open>std::to_string\<close> and stream output of an unsigned or signed integer.\<close>

definition digit :: "nat \<Rightarrow> char" where
  "digit d = ''0123456789'' ! d"

fun to_string :: "nat \<Rightarrow> string" where
  "to_string n = (if n < 10 then [digit n] else to_string (n div 10) @ [digit (n mod 10)])"

declare to_string.simps [simp del]

definition int_to_string :: "int \<Rightarrow> string" where
  "int_to_string i = (if i < 0 then CHR ''-'' # to_string (nat (- i)) else to_string (nat i))"

subsection \<open>The build environment\<close>

text \<open>
  The helpers that the compiler calls and whose code is not part of the sources at hand
  are parameters: the two ways of printing a \<open>tl_float\<close> (\<open>common::FloatToString\<close> and
  the stream output \<open>oss << value\<close> of the C++ library), \<open>common::WrapText\<close> on the pair
  of the output stream and the line length, the rendering of a function block, and the
  loading of the annotation file named by a path. The emitted text is a C file, and what
  its compiler reads in a piece of text that the stream has written is a parameter too:
  \<open>c_double s\<close> is the number that \<open>s\<close> denotes as a floating constant inside an
  expression (a \<open>double\<close>), and \<open>c_float s\<close> is the number that an object of type \<open>float\<close>
  holds when \<open>s\<close> is its initializer (the constant converted to \<open>float\<close>).
\<close>

record 'a External =
  FloatToString :: "'a \<Rightarrow> string"
  float_out :: "'a \<Rightarrow> string"
  c_double :: "string \<Rightarrow> 'a"
  c_float :: "string \<Rightarrow> 'a"
  WrapText :: "string \<times> nat \<Rightarrow> string \<Rightarrow> nat \<Rightarrow> string \<times> nat"
  FunctionBlock_Compile :: "string \<Rightarrow> string list \<Rightarrow> string list"
  read_annotation :: "string \<Rightarrow> fault + Annotation"

subsection \<open>The emitted quantization helper\<close>

text \<open>
  \<open>Quantize::Preamble\<close> emits the C function
  \<^verbatim>\<open>static inline int quantize(float val, unsigned fid)\<close> over the three constant
  tables \<open>threshold\<close>, \<open>th_begin\<close> and \<open>th_len\<close>. The functions below are that C text
  read as a program. \<open>array\<close> is the memory from \<open>&threshold[th_begin[fid]]\<close> to the end
  of the table, \<open>int\<close> values are integers checked against the 32-bit range, and \<open>/\<close> is
  the truncating division of C. The loop and the statements after it form one
  recursive function: its last branch is the code that follows the \<open>while\<close>.
\<close>

function quantize_loop :: "'a::linorder list \<Rightarrow> int \<Rightarrow> 'a \<Rightarrow> int \<Rightarrow> int \<Rightarrow> fault + int" where
  "quantize_loop array len val low high =
     (if INT_MAX < low + 1 then Inl IntOverflow
      else if low + 1 < high then
        (if INT_MAX < low + high \<or> low + high < INT_MIN then Inl IntOverflow
         else
           (let mid = (low + high) sdiv 2 in
            case rd array mid of
              Inl e \<Rightarrow> Inl e
            | Inr mval \<Rightarrow>
                if val = mval then c_int (mid * 2)
                else if val < mval then quantize_loop array len val low mid
                else quantize_loop array len val mid high))
      else
        (case rd array low of
           Inl e \<Rightarrow> Inl e
         | Inr a \<Rightarrow>
             if a = val then c_int (low * 2)
             else if high = len then c_int (len * 2)
             else (case c_int (low * 2) of Inl e \<Rightarrow> Inl e | Inr d \<Rightarrow> c_int (d + 1))))"
  by pat_completeness auto
termination
  apply (relation "measure (\<lambda>(array, len, val, low, high). nat (high - low))")
    apply (auto simp: signed_divide_int_def sgn_if split: if_splits)
  done

declare quantize_loop.simps [simp del]

definition quantize_array :: "'a::linorder list \<Rightarrow> int \<Rightarrow> 'a \<Rightarrow> fault + int" where
  "quantize_array array len val =
     (case rd array 0 of
        Inl e \<Rightarrow> Inl e
      | Inr a0 \<Rightarrow> if val < a0 then Inr (- 10) else quantize_loop array len val 0 len)"

definition quantize ::
  "'a::linorder list \<Rightarrow> int list \<Rightarrow> int list \<Rightarrow> 'a \<Rightarrow> nat \<Rightarrow> fault + int" where
  "quantize threshold_tab th_begin th_len val fid =
     (case rd th_begin (int fid) of
        Inl e \<Rightarrow> Inl e
      | Inr b \<Rightarrow>
          if b < 0 \<or> int (length threshold_tab) < b then Inl OutOfBounds
          else (case rd th_len (int fid) of
                  Inl e \<Rightarrow> Inl e
                | Inr len \<Rightarrow> quantize_array (drop (nat b) threshold_tab) len val))"

text \<open>
  The contents of the three tables, as the loops of \<open>Quantize::Preamble\<close> write them.
  The first loop writes every cut point of every feature with \<open>oss2 << value\<close> into the
  initializer of \<^verbatim>\<open>static const float threshold[]\<close>, so the table holds, for each cut
  point, the \<open>float\<close> that the printed text initializes: \<open>emitted_cut_pts\<close> are these
  numbers feature by feature and \<open>threshold_table\<close> is the table. The other two loops
  write the running offset \<open>accum\<close> before each feature and the number of cut points of
  each feature.
\<close>

definition emitted_cut_pts :: "'a External \<Rightarrow> 'a list list \<Rightarrow> 'a list list" where
  "emitted_cut_pts ext cut_pts = map (map (\<lambda>value. c_float ext (float_out ext value))) cut_pts"

definition threshold_table :: "'a External \<Rightarrow> 'a list list \<Rightarrow> 'a list" where
  "threshold_table ext cut_pts = concat (emitted_cut_pts ext cut_pts)"

fun th_begin_from :: "nat \<Rightarrow> 'a list list \<Rightarrow> int list" where
  "th_begin_from accum [] = []"
| "th_begin_from accum (e # es) = int accum # th_begin_from (accum + length e) es"

definition th_begin_table :: "'a list list \<Rightarrow> int list" where
  "th_begin_table cut_pts = th_begin_from 0 cut_pts"

definition th_len_table :: "'a list list \<Rightarrow> int list" where
  "th_len_table cut_pts = map (\<lambda>e. int (length e)) cut_pts"

text \<open>
  \<open>quantize_emitted\<close> is the helper of the file that the compiler emits for the cut points
  \<open>cut_pts\<close>. \<open>quantize_feature\<close> is the helper over a file whose threshold table holds
  the numbers \<open>tabs\<close>, feature by feature; the emitted helper is the instance for the
  numbers that the emitted table holds.
\<close>

definition quantize_emitted ::
  "'a::linorder External \<Rightarrow> 'a list list \<Rightarrow> 'a \<Rightarrow> nat \<Rightarrow> fault + int" where
  "quantize_emitted ext cut_pts val fid =
     quantize (threshold_table ext cut_pts) (th_begin_table cut_pts) (th_len_table cut_pts) val fid"

definition quantize_feature :: "'a::linorder list list \<Rightarrow> 'a \<Rightarrow> nat \<Rightarrow> fault + int" where
  "quantize_feature tabs val fid =
     quantize (concat tabs) (th_begin_table tabs) (th_len_table tabs) val fid"

subsection \<open>Emitted conditions and the records they read\<close>

text \<open>
  The generated function reads an array of \<^verbatim>\<open>union Entry\<close>. A slot holds either the
  \<open>float\<close> member \<open>fvalue\<close> or an \<open>int\<close>, which the members \<open>missing\<close> and \<open>qvalue\<close>
  both read; the missing marker is the \<open>int\<close> value \<open>-1\<close>. A slot that holds an ordered
  \<open>float\<close> never reads as \<open>-1\<close> through \<open>missing\<close> (that bit pattern is a NaN).
\<close>

datatype 'a Entry = FValue 'a | IValue int

abbreviation Missing :: "'a Entry" where
  "Missing \<equiv> IValue (- 1)"

text \<open>
  The conditions that \<open>SplitCondition::Compile\<close> and the two numeric adapters write, as
  syntax: \<open>NotMissing i\<close> is \<^verbatim>\<open>data[i].missing != -1\<close>, \<open>FCmp i op t\<close> is
  \<^verbatim>\<open>data[i].fvalue op\<close> followed by what \<open>oss << t\<close> writes for the threshold \<open>t\<close>,
  \<open>QCmp i op k\<close> is \<^verbatim>\<open>data[i].qvalue op k\<close>.
  \<open>show_cexpr\<close> prints the characters of the source, \<open>eval_cexpr\<close> is the value of the
  expression in C, where the right operand of the floating comparison is the constant
  that the written text denotes, and where \<open>||\<close> and \<open>&&\<close> evaluate their right operand
  only when the left one does not decide.
\<close>

datatype 'a cexpr =
    NotMissing nat
  | FCmp nat Operator 'a
  | QCmp nat Operator nat
  | CNot "'a cexpr"
  | COr "'a cexpr" "'a cexpr"
  | CAnd "'a cexpr" "'a cexpr"

fun show_cexpr :: "('a \<Rightarrow> string) \<Rightarrow> 'a cexpr \<Rightarrow> string" where
  "show_cexpr out (NotMissing i) = ''data['' @ to_string i @ ''].missing != -1''"
| "show_cexpr out (FCmp i op t) = ''data['' @ to_string i @ ''].fvalue '' @ OpName op @ '' '' @ out t"
| "show_cexpr out (QCmp i op k) = ''data['' @ to_string i @ ''].qvalue '' @ OpName op @ '' '' @ to_string k"
| "show_cexpr out (CNot a) = ''!('' @ show_cexpr out a @ '')''"
| "show_cexpr out (COr a b) = show_cexpr out a @ '' || '' @ show_cexpr out b"
| "show_cexpr out (CAnd a b) = '' ('' @ show_cexpr out a @ '') && '' @ show_cexpr out b"

fun eval_cexpr :: "'a::linorder External \<Rightarrow> 'a Entry list \<Rightarrow> 'a cexpr \<Rightarrow> fault + bool" where
  "eval_cexpr ext data (NotMissing i) =
     (case rd data (int i) of
        Inl e \<Rightarrow> Inl e
      | Inr (FValue v) \<Rightarrow> Inr True
      | Inr (IValue q) \<Rightarrow> Inr (q \<noteq> - 1))"
| "eval_cexpr ext data (FCmp i op t) =
     (case rd data (int i) of
        Inl e \<Rightarrow> Inl e
      | Inr (FValue v) \<Rightarrow> Inr (OpEval op v (c_double ext (float_out ext t)))
      | Inr (IValue q) \<Rightarrow> Inl WrongMember)"
| "eval_cexpr ext data (QCmp i op k) =
     (case rd data (int i) of
        Inl e \<Rightarrow> Inl e
      | Inr (FValue v) \<Rightarrow> Inl WrongMember
      | Inr (IValue q) \<Rightarrow> Inr (OpEval op q (int k)))"
| "eval_cexpr ext data (CNot a) =
     (case eval_cexpr ext data a of Inl e \<Rightarrow> Inl e | Inr x \<Rightarrow> Inr (\<not> x))"
| "eval_cexpr ext data (COr a b) =
     (case eval_cexpr ext data a of
        Inl e \<Rightarrow> Inl e
      | Inr x \<Rightarrow> if x then Inr True else eval_cexpr ext data b)"
| "eval_cexpr ext data (CAnd a b) =
     (case eval_cexpr ext data a of
        Inl e \<Rightarrow> Inl e
      | Inr x \<Rightarrow> if x then eval_cexpr ext data b else Inr False)"

subsection \<open>Numeric adapters and \<open>SplitCondition\<close>\<close>

text \<open>
  Modelled from the spec: \<open>common::binary_search\<close> of \<^verbatim>\<open>treelite/common.h\<close>, which
  is not part of the sources at hand: the exact-match binary search over a sorted
  range. It is \<open>std::lower_bound\<close> followed by the comparison with the element found,
  and yields the position of the value, or \<open>None\<close> for the end iterator.
\<close>

function lower_bound :: "'a::linorder list \<Rightarrow> 'a \<Rightarrow> nat \<Rightarrow> nat \<Rightarrow> nat" where
  "lower_bound v val first len =
     (if 0 < len then
        (let half = len div 2; middle = first + half in
         if v ! middle < val then lower_bound v val (middle + 1) (len - half - 1)
         else lower_bound v val first half)
      else first)"
  by pat_completeness auto
termination
  by (relation "measure (\<lambda>(v, val, first, len). len)") auto

declare lower_bound.simps [simp del]

definition binary_search :: "'a::linorder list \<Rightarrow> 'a \<Rightarrow> nat option" where
  "binary_search v val =
     (let i = lower_bound v val 0 (length v) in
      if i \<noteq> length v \<and> val = v ! i then Some i else None)"

text \<open>
  A numeric adapter is a closure in the source. \<open>NoQuantize::NumericAdapter\<close> captures
  nothing; \<open>Quantize::NumericAdapter\<close> captures the cut points of the metadata. The
  closure is the datatype \<open>NumericAdapter\<close>, and \<open>numeric_adapter\<close> is its call.
\<close>

datatype 'a NumericAdapter = NoQuantize_adapter | Quantize_adapter "'a list list"

definition numeric_adapter ::
  "'a::linorder NumericAdapter \<Rightarrow> Operator \<Rightarrow> nat \<Rightarrow> 'a \<Rightarrow> fault + 'a cexpr" where
  "numeric_adapter adapter op split_index' threshold' =
     (case adapter of
        NoQuantize_adapter \<Rightarrow> Inr (FCmp split_index' op threshold')
      | Quantize_adapter cut_pts' \<Rightarrow>
          (case rd cut_pts' (int split_index') of
             Inl e \<Rightarrow> Inl e
           | Inr v \<Rightarrow>
               (case binary_search v threshold' of
                  None \<Rightarrow> Inl CheckFailed
                | Some loc \<Rightarrow> Inr (QCmp split_index' op (loc * 2)))))"

datatype 'a SplitCondition =
  SplitCondition (sc_split_index: nat) (sc_default_left: bool) (sc_op: Operator)
                 (sc_threshold: 'a) (sc_numeric_adapter: "'a NumericAdapter")

definition mk_SplitCondition :: "'a Node \<Rightarrow> 'a NumericAdapter \<Rightarrow> 'a SplitCondition" where
  "mk_SplitCondition node adapter =
     SplitCondition (split_index node) (default_left node) (comparison_op node)
                    (threshold node) adapter"

definition Compile :: "'a::linorder SplitCondition \<Rightarrow> fault + 'a cexpr" where
  "Compile c =
     (let bitmap = NotMissing (sc_split_index c) in
      case numeric_adapter (sc_numeric_adapter c) (sc_op c) (sc_split_index c) (sc_threshold c) of
        Inl e \<Rightarrow> Inl e
      | Inr numeric \<Rightarrow>
          Inr (if sc_default_left c then COr (CNot bitmap) numeric else CAnd bitmap numeric))"

text \<open>
  \<open>Compile\<close> yields the condition as syntax; \<open>Compile_text\<close> is the string that
  \<open>SplitCondition::Compile\<close> returns, for a given way of printing a threshold.
\<close>

definition Compile_text :: "('a \<Rightarrow> string) \<Rightarrow> 'a::linorder SplitCondition \<Rightarrow> fault + string" where
  "Compile_text out c = (case Compile c of Inl e \<Rightarrow> Inl e | Inr x \<Rightarrow> Inr (show_cexpr out x))"

subsection \<open>Code blocks\<close>

text \<open>
  Modelled from the spec: the block vocabulary of \<^verbatim>\<open>treelite/semantic.h\<close>, which is
  not part of the sources at hand: plain-text block, function block, sequence of blocks,
  and conditional block with an optional likelihood hint. The conditional block takes
  its arguments in the order of the call in \<open>WalkTree_\<close>: the condition, the block that
  runs when the condition holds, the block that runs otherwise, and the hint.
  \<open>taken\<close> is the block that a conditional block runs on a given record, in the file
  compiled in the build environment \<open>ext\<close>; a block of another kind runs itself.
\<close>

datatype LikelyDirection = kNone | kLeft | kRight

datatype 'a CodeBlock =
    PlainBlock "string list"
  | FunctionBlock string "'a CodeBlock"
  | SequenceBlock "'a CodeBlock list"
  | IfElseBlock (condition: "'a SplitCondition") (if_block: "'a CodeBlock")
                (else_block: "'a CodeBlock") (likely_direction: LikelyDirection)

definition taken ::
  "'a::linorder External \<Rightarrow> 'a CodeBlock \<Rightarrow> 'a Entry list \<Rightarrow> fault + 'a CodeBlock" where
  "taken ext block data =
     (case block of
        IfElseBlock c l r d \<Rightarrow>
          (case Compile c of
             Inl e \<Rightarrow> Inl e
           | Inr e \<Rightarrow>
               (case eval_cexpr ext data e of
                  Inl x \<Rightarrow> Inl x
                | Inr b \<Rightarrow> Inr (if b then l else r)))
      | _ \<Rightarrow> Inr block)"

subsection \<open>Results of code that may fail or run forever\<close>

text \<open>
  The walks over a tree follow child ids and do not return on a cyclic node array.
  Their result is \<open>None\<close> when the code does not return, \<open>Some (Inl e)\<close> when it fails
  with \<open>e\<close>, and \<open>Some (Inr x)\<close> when it returns \<open>x\<close>.
\<close>

definition bindR :: "(fault + 'b) option \<Rightarrow> ('b \<Rightarrow> (fault + 'c) option) \<Rightarrow> (fault + 'c) option" where
  "bindR m f = (case m of None \<Rightarrow> None | Some (Inl e) \<Rightarrow> Some (Inl e) | Some (Inr x) \<Rightarrow> f x)"

subsection \<open>\<open>ExtractCutPoints\<close>\<close>

text \<open>
  \<open>ExtractCutPoints_walk\<close> is the \<open>while (!Q.empty())\<close> loop over one tree: \<open>Q\<close> is the
  queue, front first, and \<open>thresh\<close> is the vector \<open>thresh_\<close> of ordered sets.
  \<open>ExtractCutPoints_trees\<close> is the loop over the trees, and \<open>ExtractCutPoints\<close> resizes the
  vectors, runs the loops and copies every set, in its order, into a vector.
\<close>

partial_function (option) ExtractCutPoints_walk ::
  "'a::linorder Tree \<Rightarrow> int list \<Rightarrow> 'a set list \<Rightarrow> (fault + 'a set list) option" where
  "ExtractCutPoints_walk tree Q thresh =
     (case Q of
        [] \<Rightarrow> Some (Inr thresh)
      | nid # Q' \<Rightarrow>
          (case tree_at tree nid of
             Inl e \<Rightarrow> Some (Inl e)
           | Inr node \<Rightarrow>
               if \<not> is_leaf node then
                 (let threshold' = threshold node; split_index' = split_index node in
                  if split_index' < length thresh then
                    ExtractCutPoints_walk tree (Q' @ [cleft node, cright node])
                      (thresh[split_index' := insert threshold' (thresh ! split_index')])
                  else Some (Inl OutOfBounds))
               else ExtractCutPoints_walk tree Q' thresh))"

declare ExtractCutPoints_walk.simps [code]

fun ExtractCutPoints_trees ::
  "'a::linorder Tree list \<Rightarrow> 'a set list \<Rightarrow> (fault + 'a set list) option" where
  "ExtractCutPoints_trees [] thresh = Some (Inr thresh)"
| "ExtractCutPoints_trees (tree # rest) thresh =
     bindR (ExtractCutPoints_walk tree [0] thresh) (\<lambda>thresh'. ExtractCutPoints_trees rest thresh')"

definition ExtractCutPoints :: "'a::linorder Model \<Rightarrow> (fault + 'a list list) option" where
  "ExtractCutPoints model =
     (if num_features model < 0 then Some (Inl BadLength)
      else
        bindR (ExtractCutPoints_trees (trees model) (replicate (nat (num_features model)) {}))
          (\<lambda>thresh. Some (Inr (map (\<lambda>i. sorted_list_of_set (thresh ! i))
                                    [0 ..< nat (num_features model)]))))"

subsection \<open>Metadata and the two quantization policies\<close>

text \<open>
  \<open>Metadata\<close> has the fields \<open>num_features\<close> and \<open>cut_pts\<close> in the source; the first is
  \<open>meta_num_features\<close> here, apart from the field of the ensemble. The policy class that
  the compiler inherits from is the value \<open>QuantizePolicy\<close>, and the metadata that the
  policy stores is an argument of its member functions.
\<close>

record 'a Metadata =
  meta_num_features :: int
  cut_pts :: "'a list list"

definition Metadata_Init :: "'a::linorder Model \<Rightarrow> bool \<Rightarrow> (fault + 'a Metadata) option" where
  "Metadata_Init model extract_cut_pts =
     (if extract_cut_pts then
        bindR (ExtractCutPoints model)
          (\<lambda>c. Some (Inr \<lparr>meta_num_features = num_features model, cut_pts = c\<rparr>))
      else Some (Inr \<lparr>meta_num_features = num_features model, cut_pts = []\<rparr>))"

datatype QuantizePolicy = NoQuantize | Quantize

definition QuantizeFlag :: "QuantizePolicy \<Rightarrow> bool" where
  "QuantizeFlag policy = (case policy of NoQuantize \<Rightarrow> False | Quantize \<Rightarrow> True)"

definition NumericAdapter :: "QuantizePolicy \<Rightarrow> 'a Metadata \<Rightarrow> 'a NumericAdapter" where
  "NumericAdapter policy info =
     (case policy of
        NoQuantize \<Rightarrow> NoQuantize_adapter
      | Quantize \<Rightarrow> Quantize_adapter (cut_pts info))"

definition Preprocessing :: "QuantizePolicy \<Rightarrow> 'a Metadata \<Rightarrow> string list" where
  "Preprocessing policy info =
     (case policy of
        NoQuantize \<Rightarrow> []
      | Quantize \<Rightarrow>
          [''for (int i = 0; i < '' @ int_to_string (meta_num_features info) @ ''; ++i) {'',
           ''  if (data[i].missing != -1) {'',
           ''    data[i].qvalue = quantize(data[i].fvalue, i);'',
           ''  }'',
           ''}''])"

text \<open>
  The loop that \<open>Preprocessing\<close> emits for the quantized policy, read as a program on
  the record \<open>data\<close>: \<open>tabs\<close> are the numbers that the threshold table of the file
  holds, \<open>n\<close> is the feature count written into the loop and \<open>i\<close> the loop variable. A
  slot whose \<open>missing\<close> member is not \<open>-1\<close> has its \<open>fvalue\<close> replaced by the code
  that \<open>quantize\<close> returns for it. \<open>Preprocessing_run\<close> runs the loop of the emitted
  file.
\<close>

function preprocess_loop ::
  "'a::linorder list list \<Rightarrow> int \<Rightarrow> int \<Rightarrow> 'a Entry list \<Rightarrow> fault + 'a Entry list" where
  "preprocess_loop tabs n i data =
     (if i < n then
        (case rd data i of
           Inl e \<Rightarrow> Inl e
         | Inr (IValue q) \<Rightarrow>
             if q \<noteq> - 1 then Inl WrongMember else preprocess_loop tabs n (i + 1) data
         | Inr (FValue v) \<Rightarrow>
             (case quantize_feature tabs v (nat i) of
                Inl e \<Rightarrow> Inl e
              | Inr q \<Rightarrow> preprocess_loop tabs n (i + 1) (data[nat i := IValue q])))
      else Inr data)"
  by pat_completeness auto
termination
  by (relation "measure (\<lambda>(tabs, n, i, data). nat (n - i))") auto

declare preprocess_loop.simps [simp del]

definition Preprocessing_run ::
  "'a::linorder External \<Rightarrow> QuantizePolicy \<Rightarrow> 'a Metadata \<Rightarrow> 'a Entry list \<Rightarrow>
   fault + 'a Entry list" where
  "Preprocessing_run ext policy info data =
     (case policy of
        NoQuantize \<Rightarrow> Inr data
      | Quantize \<Rightarrow>
          preprocess_loop (emitted_cut_pts ext (cut_pts info)) (meta_num_features info) 0 data)"

definition quantize_text :: "string list" where
  "quantize_text =
     [''const float* array = &threshold[th_begin[fid]];'',
      ''int len = th_len[fid];'',
      ''int low = 0;'',
      ''int high = len;'',
      ''int mid;'',
      ''float mval;'',
      ''if (val < array[0]) {'',
      ''  return -10;'',
      ''}'',
      ''while (low + 1 < high) {'',
      ''  mid = (low + high) / 2;'',
      ''  mval = array[mid];'',
      ''  if (val == mval) {'',
      ''    return mid * 2;'',
      ''  } else if (val < mval) {'',
      ''    high = mid;'',
      ''  } else {'',
      ''    low = mid;'',
      ''  }'',
      ''}'',
      ''if (array[low] == val) {'',
      ''  return low * 2;'',
      ''} else if (high == len) {'',
      ''  return len * 2;'',
      ''} else {'',
      ''  return low * 2 + 1;'',
      ''}'']"

definition Preamble :: "'a External \<Rightarrow> QuantizePolicy \<Rightarrow> 'a Metadata \<Rightarrow> string list" where
  "Preamble ext policy info =
     (case policy of
        NoQuantize \<Rightarrow>
          [''union Entry {'',
           ''  int missing;'',
           ''  float fvalue;'',
           ''};'']
      | Quantize \<Rightarrow>
          [''union Entry {'',
           ''  int missing;'',
           ''  float fvalue;'',
           ''  int qvalue;'',
           ''};'',
           ''static const float threshold[] = {'',
           fst (fold (\<lambda>e st. fold (\<lambda>value st. WrapText ext st (float_out ext value) 80) e st)
                     (cut_pts info) (''  '', 2)),
           ''};'',
           ''static const int th_begin[] = {'',
           fst (fst (fold (\<lambda>e (st, accum). (WrapText ext st (to_string accum) 80, accum + length e))
                          (cut_pts info) ((''  '', 2), 0))),
           ''};'',
           ''static const int th_len[] = {'',
           fst (fold (\<lambda>e st. WrapText ext st (to_string (length e)) 80)
                     (cut_pts info) (''  '', 2)),
           ''};'']
          @ FunctionBlock_Compile ext ''static inline int quantize(float val, unsigned fid)''
              quantize_text)"

subsection \<open>\<open>RecursiveCompiler\<close>\<close>

text \<open>
  \<open>likely\<close> is the computation of \<open>likely_direction\<close> in \<open>WalkTree_\<close>, and \<open>WalkTree_rec\<close>
  is \<open>WalkTree_\<close> itself; of the two recursive calls, whose order C++ leaves open, the one
  for the left child is taken first. The options \<open>annotate_in\<close> and \<open>quantize\<close> of
  \<open>CompilerParam\<close> are the fields \<open>annotate_in\<close> and \<open>quantize_param\<close>.
\<close>

definition likely :: "nat list \<Rightarrow> 'a Node \<Rightarrow> fault + LikelyDirection" where
  "likely counts node =
     (if counts \<noteq> [] then
        (case rd counts (cleft node) of
           Inl e \<Rightarrow> Inl e
         | Inr left_count \<Rightarrow>
             (case rd counts (cright node) of
                Inl e \<Rightarrow> Inl e
              | Inr right_count \<Rightarrow>
                  Inr (if left_count > right_count then kLeft else kRight)))
      else Inr kNone)"

partial_function (option) WalkTree_rec ::
  "'a External \<Rightarrow> 'a NumericAdapter \<Rightarrow> 'a Tree \<Rightarrow> nat list \<Rightarrow> int \<Rightarrow> (fault + 'a CodeBlock) option" where
  "WalkTree_rec ext adapter tree counts nid =
     (case tree_at tree nid of
        Inl e \<Rightarrow> Some (Inl e)
      | Inr node \<Rightarrow>
          if is_leaf node then
            Some (Inr (PlainBlock [''sum += '' @ FloatToString ext (leaf_value node) @ '';'']))
          else
            (case likely counts node of
               Inl e \<Rightarrow> Some (Inl e)
             | Inr likely_direction' \<Rightarrow>
                 Option.bind (WalkTree_rec ext adapter tree counts (cleft node)) (\<lambda>lres.
                   case lres of
                     Inl e \<Rightarrow> Some (Inl e)
                   | Inr lblock \<Rightarrow>
                       Option.bind (WalkTree_rec ext adapter tree counts (cright node)) (\<lambda>rres.
                         case rres of
                           Inl e \<Rightarrow> Some (Inl e)
                         | Inr rblock \<Rightarrow>
                             Some (Inr (IfElseBlock (mk_SplitCondition node adapter)
                                          lblock rblock likely_direction'))))))"

declare WalkTree_rec.simps [code]

definition WalkTree ::
  "'a External \<Rightarrow> 'a NumericAdapter \<Rightarrow> 'a Tree \<Rightarrow> nat list \<Rightarrow> (fault + 'a CodeBlock) option" where
  "WalkTree ext adapter tree counts = WalkTree_rec ext adapter tree counts 0"

record CompilerParam =
  annotate_in :: string
  quantize_param :: int

text \<open>
  \<open>WalkTrees\<close> is the loop of \<open>Export\<close> over \<open>tree_id\<close>, on the trees from \<open>tree_id\<close> on.
\<close>

fun WalkTrees ::
  "'a External \<Rightarrow> 'a NumericAdapter \<Rightarrow> Annotation \<Rightarrow> 'a Tree list \<Rightarrow> nat \<Rightarrow>
   (fault + 'a CodeBlock list) option" where
  "WalkTrees ext adapter annotation [] tree_id = Some (Inr [])"
| "WalkTrees ext adapter annotation (tree # rest) tree_id =
     bindR (if annotation \<noteq> [] then
              (case rd annotation (int tree_id) of
                 Inl e \<Rightarrow> Some (Inl e)
               | Inr counts \<Rightarrow> WalkTree ext adapter tree counts)
            else WalkTree ext adapter tree [])
       (\<lambda>block. bindR (WalkTrees ext adapter annotation rest (tree_id + 1))
          (\<lambda>blocks. Some (Inr (block # blocks))))"

definition load_annotation :: "'a External \<Rightarrow> CompilerParam \<Rightarrow> fault + Annotation \<times> bool" where
  "load_annotation ext param =
     (if annotate_in param \<noteq> ''NULL'' then
        (case read_annotation ext (annotate_in param) of
           Inl e \<Rightarrow> Inl e
         | Inr annotation \<Rightarrow> Inr (annotation, True))
      else Inr ([], False))"

definition Export ::
  "'a::linorder External \<Rightarrow> CompilerParam \<Rightarrow> QuantizePolicy \<Rightarrow> 'a Model \<Rightarrow>
   (fault + 'a CodeBlock) option" where
  "Export ext param policy model =
     bindR (Metadata_Init model (QuantizeFlag policy)) (\<lambda>info.
       case load_annotation ext param of
         Inl e \<Rightarrow> Some (Inl e)
       | Inr (annotation, annotate) \<Rightarrow>
           bindR (WalkTrees ext (NumericAdapter policy info) annotation (trees model) 0)
             (\<lambda>blocks.
                let sequence = [PlainBlock [''float sum = 0.0f;''],
                                PlainBlock (Preprocessing policy info)]
                               @ blocks @ [PlainBlock [''return sum;'']];
                    function = FunctionBlock ''float predict_margin(union Entry* data)''
                                 (SequenceBlock sequence);
                    preamble = Preamble ext policy info @ ['''']
                               @ (if annotate then
                                    [''#define LIKELY(x)     __builtin_expect(!!(x), 1)'',
                                     ''#define UNLIKELY(x)   __builtin_expect(!!(x), 0)'']
                                  else [])
                in Some (Inr (SequenceBlock [PlainBlock preamble, function]))))"

text \<open>The body registered for the name \<open>recursive\<close> selects the policy.\<close>

definition policy_of :: "CompilerParam \<Rightarrow> QuantizePolicy" where
  "policy_of param = (if quantize_param param > 0 then Quantize else NoQuantize)"

definition recursive_compiler ::
  "'a::linorder External \<Rightarrow> CompilerParam \<Rightarrow> 'a Model \<Rightarrow> (fault + 'a CodeBlock) option" where
  "recursive_compiler ext param model = Export ext param (policy_of param) model"

subsection \<open>Well-formed trees\<close>

text \<open>
  \<open>valid_from tree nid\<close>: the nodes below \<open>nid\<close> form a finite binary tree whose child
  ids all lie in the node array. \<open>reach tree a b\<close>: node \<open>b\<close> is \<open>a\<close> or lies below it.
  A valid tree is well formed from its root, every node of its array is reached from the
  root, and every split index addresses a feature; a valid ensemble has a feature count
  that is not negative and valid trees.
\<close>

inductive valid_from :: "'a Tree \<Rightarrow> int \<Rightarrow> bool" for tree :: "'a Tree" where
  valid_leaf: "tree_at tree nid = Inr node \<Longrightarrow> is_leaf node \<Longrightarrow> valid_from tree nid"
| valid_split: "tree_at tree nid = Inr node \<Longrightarrow> \<not> is_leaf node \<Longrightarrow>
     valid_from tree (cleft node) \<Longrightarrow> valid_from tree (cright node) \<Longrightarrow> valid_from tree nid"

inductive reach :: "'a Tree \<Rightarrow> int \<Rightarrow> int \<Rightarrow> bool" for tree :: "'a Tree" and a :: int where
  reach_self: "reach tree a a"
| reach_left: "reach tree a b \<Longrightarrow> tree_at tree b = Inr node \<Longrightarrow> \<not> is_leaf node \<Longrightarrow>
     reach tree a (cleft node)"
| reach_right: "reach tree a b \<Longrightarrow> tree_at tree b = Inr node \<Longrightarrow> \<not> is_leaf node \<Longrightarrow>
     reach tree a (cright node)"

definition valid_tree :: "int \<Rightarrow> 'a Tree \<Rightarrow> bool" where
  "valid_tree nf tree \<longleftrightarrow>
     valid_from tree 0 \<and>
     (\<forall>i < length tree. reach tree 0 (int i)) \<and>
     (\<forall>node \<in> set tree. \<not> is_leaf node \<longrightarrow> int (split_index node) < nf)"

definition valid_model :: "'a Model \<Rightarrow> bool" where
  "valid_model model \<longleftrightarrow>
     0 \<le> num_features model \<and> (\<forall>tree \<in> set (trees model). valid_tree (num_features model) tree)"

subsection \<open>Vocabulary of the statements about the quantization helper\<close>

text \<open>
  \<open>strict_upto array len\<close>: the first \<open>len\<close> cells of the memory \<open>array\<close> increase
  strictly. \<open>code_case array len val r\<close>: \<open>r\<close> is the code of \<open>val\<close> in one of the three
  cases that the helper distinguishes at or above the first cut point, and \<open>code_ok\<close>
  reads the same three cases as implications.
\<close>

definition strict_upto :: "'a::linorder list \<Rightarrow> nat \<Rightarrow> bool" where
  "strict_upto array len \<longleftrightarrow> len \<le> length array \<and> (\<forall>i j. i < j \<and> j < len \<longrightarrow> array ! i < array ! j)"

definition code_ok :: "'a::linorder list \<Rightarrow> nat \<Rightarrow> 'a \<Rightarrow> int \<Rightarrow> bool" where
  "code_ok array len val r \<longleftrightarrow>
     (\<forall>i < len. array ! i = val \<longrightarrow> r = int i * 2) \<and>
     (array ! (len - 1) < val \<longrightarrow> r = int len * 2) \<and>
     (\<forall>i. i + 1 < len \<and> array ! i < val \<and> val < array ! (i + 1) \<longrightarrow> r = int i * 2 + 1)"

definition code_case :: "'a::linorder list \<Rightarrow> nat \<Rightarrow> 'a \<Rightarrow> int \<Rightarrow> bool" where
  "code_case array len val r \<longleftrightarrow>
     (\<exists>m < len. array ! m = val \<and> r = int m * 2) \<or>
     (0 < len \<and> array ! (len - 1) < val \<and> r = int len * 2) \<or>
     (\<exists>l. l + 1 < len \<and> array ! l < val \<and> val < array ! (l + 1) \<and> r = int l * 2 + 1)"

subsection \<open>Vocabulary of the statements about the compiler\<close>

text \<open>
  \<open>subtree_size tree nid n\<close>: the nodes below \<open>nid\<close> form a finite binary tree of \<open>n\<close>
  nodes. \<open>feat_thresholds tree a f\<close>: the thresholds of the splits on feature \<open>f\<close> at or
  below node \<open>a\<close>. \<open>splits_in_range tree q n\<close>: every split at or below \<open>q\<close> has a feature
  id below \<open>n\<close>. \<open>walk_post\<close>: what a returning walk of \<open>ExtractCutPoints_walk\<close> has
  added to the sets.
\<close>

inductive subtree_size :: "'a Tree \<Rightarrow> int \<Rightarrow> nat \<Rightarrow> bool" for tree :: "'a Tree" where
  size_leaf: "tree_at tree nid = Inr node \<Longrightarrow> is_leaf node \<Longrightarrow> subtree_size tree nid 1"
| size_split: "tree_at tree nid = Inr node \<Longrightarrow> \<not> is_leaf node \<Longrightarrow>
     subtree_size tree (cleft node) a \<Longrightarrow> subtree_size tree (cright node) b \<Longrightarrow>
     subtree_size tree nid (a + b + 1)"

definition feat_thresholds :: "'a Tree \<Rightarrow> int \<Rightarrow> nat \<Rightarrow> 'a set" where
  "feat_thresholds tree a f =
     {threshold node | b node.
        reach tree a b \<and> tree_at tree b = Inr node \<and> \<not> is_leaf node \<and> split_index node = f}"

definition splits_in_range :: "'a Tree \<Rightarrow> int \<Rightarrow> nat \<Rightarrow> bool" where
  "splits_in_range tree q n \<longleftrightarrow>
     (\<forall>b node. reach tree q b \<and> tree_at tree b = Inr node \<and> \<not> is_leaf node \<longrightarrow> split_index node < n)"

definition walk_post :: "'a::linorder Tree \<Rightarrow> int list \<Rightarrow> 'a set list \<Rightarrow> 'a set list \<Rightarrow> bool" where
  "walk_post tree Q thresh th \<longleftrightarrow>
     length th = length thresh \<and>
     (\<forall>f < length thresh. thresh ! f \<subseteq> th ! f) \<and>
     ((\<forall>f < length thresh. finite (thresh ! f)) \<longrightarrow> (\<forall>f < length thresh. finite (th ! f))) \<and>
     (\<forall>q \<in> set Q. \<forall>b node. reach tree q b \<and> tree_at tree b = Inr node \<and> \<not> is_leaf node \<longrightarrow>
        split_index node < length thresh \<and> threshold node \<in> th ! split_index node)"

text \<open>
  \<open>conditions block\<close>: the conditions of all conditional blocks inside \<open>block\<close>.
  \<open>counts_for annotation tree_id\<close>: the counts that \<open>Export\<close> hands to the walker for
  tree \<open>tree_id\<close>.
\<close>

fun conditions :: "'a CodeBlock \<Rightarrow> 'a SplitCondition set" where
  "conditions (PlainBlock ls) = {}"
| "conditions (FunctionBlock p b) = conditions b"
| "conditions (SequenceBlock bs) = (\<Union>b \<in> set bs. conditions b)"
| "conditions (IfElseBlock c l r d) = insert c (conditions l \<union> conditions r)"

definition counts_for :: "Annotation \<Rightarrow> nat \<Rightarrow> nat list" where
  "counts_for ann tree_id = (if ann \<noteq> [] then ann ! tree_id else [])"

text \<open>
  \<open>hints block\<close>: the likelihood hints of all conditional blocks inside \<open>block\<close>.
  \<open>cut_to_shape ts annotation\<close>: the annotation without the entries beyond the trees
  \<open>ts\<close> and without the counts beyond the node count of each tree.
  \<open>count_hint counts node\<close>: the direction that the counts of the two children of
  \<open>node\<close> favour, the right one on a tie.
\<close>

definition count_hint :: "nat list \<Rightarrow> 'a Node \<Rightarrow> LikelyDirection" where
  "count_hint counts node =
     (if counts ! nat (cleft node) > counts ! nat (cright node) then kLeft else kRight)"

fun hints :: "'a CodeBlock \<Rightarrow> LikelyDirection set" where
  "hints (PlainBlock ls) = {}"
| "hints (FunctionBlock p b) = hints b"
| "hints (SequenceBlock bs) = (\<Union>b \<in> set bs. hints b)"
| "hints (IfElseBlock c l r d) = insert d (hints l \<union> hints r)"

definition cut_to_shape :: "'a Tree list \<Rightarrow> Annotation \<Rightarrow> Annotation" where
  "cut_to_shape ts annotation = map (\<lambda>(tree, counts). take (length tree) counts) (zip ts annotation)"

text \<open>
  Modelled from the spec: the routing of one input at a split in the ensemble itself,
  which \<^verbatim>\<open>treelite/tree.h\<close> fixes and the sources at hand do not contain. A missing
  input takes the side that \<open>default_left\<close> names; a present value \<open>v\<close> goes left when
  \<open>v op threshold\<close> holds and right otherwise (in the end-to-end scenario, with \<open><\<close> and
  threshold 0.5, the input 0.2 reaches the left leaf and 0.7 the right one).
\<close>

definition branch_left :: "'a::linorder Node \<Rightarrow> 'a option \<Rightarrow> bool" where
  "branch_left node x =
     (case x of
        None \<Rightarrow> default_left node
      | Some v \<Rightarrow> OpEval (comparison_op node) v (threshold node))"

text \<open>
  \<open>raw_slot x\<close>: the slot that the caller fills for the input \<open>x\<close> (\<open>None\<close> is a missing
  value). \<open>slot_seen ext adapter fid x\<close>: what the slot of feature \<open>fid\<close> holds when the
  conditions run. Without quantization it is the slot as filled; with quantization the
  emitted preprocessing loop has replaced a present value by the code that the emitted
  helper returns for it and left the missing marker.
  \<open>adapter_ok adapter fid\<close>: the cut points that a quantized adapter holds for \<open>fid\<close> are
  sorted and free of duplicates, and twice their number is an \<open>int\<close>.
  \<open>prints_exactly ext adapter node\<close>: the text that the stream writes denotes the number
  written. Without quantization this is asked of the threshold of \<open>node\<close>, read as a
  constant of the condition; with quantization of every cut point of the node's feature,
  read as an entry of the threshold table.
\<close>

definition raw_slot :: "'a option \<Rightarrow> 'a Entry" where
  "raw_slot x = (case x of None \<Rightarrow> Missing | Some v \<Rightarrow> FValue v)"

definition slot_seen ::
  "'a::linorder External \<Rightarrow> 'a NumericAdapter \<Rightarrow> nat \<Rightarrow> 'a option \<Rightarrow> fault + 'a Entry" where
  "slot_seen ext adapter fid x =
     (case x of
        None \<Rightarrow> Inr Missing
      | Some v \<Rightarrow>
          (case adapter of
             NoQuantize_adapter \<Rightarrow> Inr (FValue v)
           | Quantize_adapter cps \<Rightarrow>
               (case quantize_emitted ext cps v fid of
                  Inl e \<Rightarrow> Inl e
                | Inr q \<Rightarrow> Inr (IValue q))))"



subsection \<open>Stream output of floats that are integers\<close>

text \<open>
  The stream output of a \<open>float\<close> has the default precision of six significant digits
  and the format of \<open>printf\<close> with \<open>%g\<close>. For a float whose value is an integer \<open>x\<close>
  the functions below compute it: \<open>sig6\<close> rounds the magnitude to six significant
  digits, to the even digit on a tie, and yields the digits and the power of ten;
  \<open>stream_float\<close> is the text, which is the plain digits up to six of them and the
  form \<^verbatim>\<open>d.ddddde+XX\<close> without trailing zeros beyond; \<open>read_float\<close> is the number that
  a text of one of these two forms denotes. Integers of magnitude below \<open>2^24\<close> are
  values of both \<open>float\<close> and \<open>double\<close>, so there \<open>read_float\<close> is the constant that a C
  compiler reads as well as the \<open>float\<close> that it initializes.
\<close>

fun dec_len :: "nat \<Rightarrow> nat" where
  "dec_len n = (if n < 10 then 1 else Suc (dec_len (n div 10)))"

declare dec_len.simps [simp del]

definition round_half_even :: "nat \<Rightarrow> nat \<Rightarrow> nat" where
  "round_half_even n u =
     (let q = n div u; r = n mod u in
      if 2 * r < u then q else if u < 2 * r then q + 1 else if even q then q else q + 1)"

definition sig6 :: "nat \<Rightarrow> nat \<times> nat" where
  "sig6 n =
     (let k = dec_len n - 6; q = round_half_even n (10 ^ k) in
      if q = 1000000 then (100000, k + 1) else (q, k))"

definition strip_zeros :: "string \<Rightarrow> string" where
  "strip_zeros ds = rev (dropWhile (\<lambda>c. c = CHR ''0'') (rev ds))"

definition stream_float :: "int \<Rightarrow> string" where
  "stream_float x =
     (let (q, k) = sig6 (nat \<bar>x\<bar>); sign = (if x < 0 then ''-'' else '''') in
      if k = 0 then sign @ to_string q
      else
        (let ds = to_string q; frac = strip_zeros (tl ds) in
         sign @ [hd ds] @ (if frac = [] then [] else CHR ''.'' # frac)
         @ ''e+'' @ (if k + 5 < 10 then ''0'' else '''') @ to_string (k + 5)))"

definition digit_val :: "char \<Rightarrow> nat" where
  "digit_val c = length (takeWhile (\<lambda>d. d \<noteq> c) ''0123456789'')"

definition read_nat :: "string \<Rightarrow> nat" where
  "read_nat ds = foldl (\<lambda>a c. a * 10 + digit_val c) 0 ds"

definition read_float :: "string \<Rightarrow> int" where
  "read_float s =
     (let neg = (s \<noteq> [] \<and> hd s = CHR ''-'');
          body = (if neg then tl s else s);
          mant = takeWhile (\<lambda>c. c \<noteq> CHR ''e'') body;
          ex = drop 2 (dropWhile (\<lambda>c. c \<noteq> CHR ''e'') body);
          ip = takeWhile (\<lambda>c. c \<noteq> CHR ''.'') mant;
          fp = drop 1 (dropWhile (\<lambda>c. c \<noteq> CHR ''.'') mant);
          m = int (read_nat (ip @ fp) * 10 ^ (read_nat ex - length fp))
      in if neg then - m else m)"

subsection \<open>Concrete ensembles\<close>

text \<open>
  The two-tree ensemble of the end-to-end scenario, with all values multiplied by ten so
  that they are integers: tree A splits feature 0 at 5 with operator \<open><\<close> and default
  direction left, and has the leaves 10 (left) and -10 (right); tree B is the leaf 5.
  Tree C is tree A with the threshold 1234567, a \<open>float\<close> of seven significant digits.
  \<open>ext0\<close> is a build environment for floats that are integers: the stream output of the
  C++ library and its reading by the C compiler are as above, and the other helpers are
  simple stand-ins.
\<close>

definition ext0 :: "int External" where
  "ext0 = \<lparr>FloatToString = int_to_string,
           float_out = stream_float,
           c_double = read_float,
           c_float = read_float,
           WrapText = (\<lambda>(oss, len) str textwidth. (oss @ str @ '', '', len + length str + 2)),
           FunctionBlock_Compile = (\<lambda>prototype body. (prototype @ '' {'') # map (\<lambda>l. ''  '' @ l) body @ [''}'']),
           read_annotation = (\<lambda>path. Inl LoadFailed)\<rparr>"

definition treeA :: "int Tree" where
  "treeA = [Split 0 True kLT 5 1 2, Leaf 10, Leaf (- 10)]"

definition treeB :: "int Tree" where
  "treeB = [Leaf 5]"

definition model0 :: "int Model" where
  "model0 = \<lparr>trees = [treeA, treeB], num_features = 1\<rparr>"

definition treeC :: "int Tree" where
  "treeC = [Split 0 True kLT 1234567 1 2, Leaf 10, Leaf (- 10)]"

definition model1 :: "int Model" where
  "model1 = \<lparr>trees = [treeC], num_features = 1\<rparr>"

text \<open>
  \<open>artifact0 d\<close>: the artifact of the unquantized compiler for the first ensemble when an
  annotation was loaded and the conditional of tree A carries the hint \<open>d\<close>;
  \<open>annotated_artifact0\<close> is the one for counts of tree A that favour the left child.
\<close>

definition artifact0 :: "LikelyDirection \<Rightarrow> int CodeBlock" where
  "artifact0 d =
     SequenceBlock
       [PlainBlock
          [''union Entry {'',
           ''  int missing;'',
           ''  float fvalue;'',
           ''};'',
           '''',
           ''#define LIKELY(x)     __builtin_expect(!!(x), 1)'',
           ''#define UNLIKELY(x)   __builtin_expect(!!(x), 0)''],
        FunctionBlock ''float predict_margin(union Entry* data)''
          (SequenceBlock
             [PlainBlock [''float sum = 0.0f;''],
              PlainBlock [],
              IfElseBlock (SplitCondition 0 True kLT 5 NoQuantize_adapter)
                (PlainBlock [''sum += 10;'']) (PlainBlock [''sum += -10;'']) d,
              PlainBlock [''sum += 5;''],
              PlainBlock [''return sum;'']])]"

definition annotated_artifact0 :: "int CodeBlock" where
  "annotated_artifact0 =
     SequenceBlock
       [PlainBlock
          [''union Entry {'',
           ''  int missing;'',
           ''  float fvalue;'',
           ''};'',
           '''',
           ''#define LIKELY(x)     __builtin_expect(!!(x), 1)'',
           ''#define UNLIKELY(x)   __builtin_expect(!!(x), 0)''],
        FunctionBlock ''float predict_margin(union Entry* data)''
          (SequenceBlock
             [PlainBlock [''float sum = 0.0f;''],
              PlainBlock [],
              IfElseBlock (SplitCondition 0 True kLT 5 NoQuantize_adapter)
                (PlainBlock [''sum += 10;'']) (PlainBlock [''sum += -10;'']) kLeft,
              PlainBlock [''sum += 5;''],
              PlainBlock [''return sum;'']])]"

section \<open>Properties\<close>

subsection \<open>The quantization helper\<close>

lemma strict_upto_less_iff:
  assumes "strict_upto array len" "i < len" "j < len"
  shows "array ! i < array ! j \<longleftrightarrow> i < j"
proof
  assume "array ! i < array ! j"
  show "i < j"
  proof (rule ccontr)
    assume "\<not> i < j"
    then have "j = i \<or> j < i" by auto
    then have "array ! j \<le> array ! i"
      using assms by (auto simp: strict_upto_def intro: less_imp_le)
    with \<open>array ! i < array ! j\<close> show False by simp
  qed
next
  assume "i < j" then show "array ! i < array ! j"
    using assms by (simp add: strict_upto_def)
qed

lemma strict_upto_eq_iff:
  assumes "strict_upto array len" "i < len" "j < len"
  shows "array ! i = array ! j \<longleftrightarrow> i = j"
  using strict_upto_less_iff [OF assms(1) assms(2) assms(3)]
        strict_upto_less_iff [OF assms(1) assms(3) assms(2)]
  by (metis less_irrefl linorder_neqE_nat)

lemma code_ok_exact:
  assumes su: "strict_upto array len" and m: "m < len" and v: "array ! m = val"
  shows "code_ok array len val (int m * 2)"
  unfolding code_ok_def
proof (intro conjI allI impI)
  fix i assume "i < len" "array ! i = val"
  then have "i = m" using strict_upto_eq_iff [OF su \<open>i < len\<close> m] v by simp
  then show "int m * 2 = int i * 2" by simp
next
  assume "array ! (len - 1) < val"
  then have "array ! (len - 1) < array ! m" using v by simp
  then have "len - 1 < m" using strict_upto_less_iff [OF su _ m, of "len - 1"] m by simp
  with m show "int m * 2 = int len * 2" by simp
next
  fix i assume "i + 1 < len \<and> array ! i < val \<and> val < array ! (i + 1)"
  then have a: "i + 1 < len" "array ! i < array ! m" "array ! m < array ! (i + 1)" using v by auto
  have "i < m" using strict_upto_less_iff [OF su _ m, of i] a by simp
  moreover have "m < i + 1" using strict_upto_less_iff [OF su m a(1)] a by simp
  ultimately show "int m * 2 = int i * 2 + 1" by simp
qed

lemma code_ok_above:
  assumes su: "strict_upto array len" and l: "len = l + 1" and v: "array ! l < val"
  shows "code_ok array len val (int len * 2)"
  unfolding code_ok_def
proof (intro conjI allI impI)
  fix i assume i: "i < len" "array ! i = val"
  then have "array ! l < array ! i" using v by simp
  then have "l < i" using strict_upto_less_iff [OF su _ i(1), of l] l by simp
  with i l show "int len * 2 = int i * 2" by simp
next
  assume "array ! (len - 1) < val" show "int len * 2 = int len * 2" by simp
next
  fix i assume a: "i + 1 < len \<and> array ! i < val \<and> val < array ! (i + 1)"
  then have "array ! l < array ! (i + 1)" using v by auto
  then have "l < i + 1" using strict_upto_less_iff [OF su _ _, of l "i + 1"] l a by simp
  with a l show "int len * 2 = int i * 2 + 1" by simp
qed

lemma code_ok_between:
  assumes su: "strict_upto array len" and l: "l + 1 < len"
    and v: "array ! l < val" "val < array ! (l + 1)"
  shows "code_ok array len val (int l * 2 + 1)"
  unfolding code_ok_def
proof (intro conjI allI impI)
  fix i assume i: "i < len" "array ! i = val"
  then have "array ! l < array ! i" "array ! i < array ! (l + 1)" using v by simp_all
  then have "l < i" "i < l + 1"
    using strict_upto_less_iff [OF su _ i(1), of l] strict_upto_less_iff [OF su i(1) l] l by simp_all
  then show "int l * 2 + 1 = int i * 2" by simp
next
  assume "array ! (len - 1) < val"
  then have "array ! (len - 1) < array ! (l + 1)" using v by simp
  then have "len - 1 < l + 1" using strict_upto_less_iff [OF su _ l, of "len - 1"] l by simp
  with l show "int l * 2 + 1 = int len * 2" by simp
next
  fix i assume a: "i + 1 < len \<and> array ! i < val \<and> val < array ! (i + 1)"
  then have "array ! i < array ! (l + 1)" "array ! l < array ! (i + 1)" using v by auto
  then have "i < l + 1" "l < i + 1"
    using strict_upto_less_iff [OF su _ l, of i] strict_upto_less_iff [OF su _ _, of l "i + 1"] l a by simp_all
  then show "int l * 2 + 1 = int i * 2 + 1" by simp
qed

lemma code_case_ok:
  assumes su: "strict_upto array len" and cc: "code_case array len val r"
  shows "code_ok array len val r"
proof -
  from cc consider
      (exact) m where "m < len" "array ! m = val" "r = int m * 2"
    | (above) "0 < len" "array ! (len - 1) < val" "r = int len * 2"
    | (between) l where "l + 1 < len" "array ! l < val" "val < array ! (l + 1)" "r = int l * 2 + 1"
    unfolding code_case_def by blast
  then show ?thesis
  proof cases
    case exact
    then show ?thesis using code_ok_exact [OF su, of m val] by simp
  next
    case above
    then show ?thesis using code_ok_above [OF su, of "len - 1" val] by simp
  next
    case between
    then show ?thesis using code_ok_between [OF su, of l val] by simp
  qed
qed



lemma quantize_loop_correct:
  assumes su: "strict_upto array len" and bound: "2 * int len \<le> INT_MAX"
  shows "l < h \<Longrightarrow> h \<le> len \<Longrightarrow> array ! l \<le> val \<Longrightarrow> (h < len \<longrightarrow> val < array ! h) \<Longrightarrow>
         \<exists>r. quantize_loop array (int len) val (int l) (int h) = Inr r \<and> code_case array len val r"
proof (induction "h - l" arbitrary: l h rule: less_induct)
  case less
  have len: "len \<le> length array" using su by (simp add: strict_upto_def)
  have imax: "INT_MAX = 2147483647" by (simp add: INT_MAX_def)
  have imin: "INT_MIN = - 2147483648" by (simp add: INT_MIN_def)
  show ?case
  proof (cases "l + 1 < h")
    case True
    define m where "m = (l + h) div 2"
    have m: "l < m" "m < h" using True by (simp_all add: m_def)
    have mid: "(int l + int h) sdiv 2 = int m"
      by (simp add: m_def signed_divide_int_def sgn_if zdiv_int)
    have rdm: "rd array (int m) = Inr (array ! m)"
      using m less.prems len by (simp add: rd_def)
    have cm: "c_int (int m * 2) = Inr (int m * 2)"
      using m less.prems bound by (simp add: c_int_def imax imin)
    have step: "quantize_loop array (int len) val (int l) (int h) =
        (if val = array ! m then Inr (int m * 2)
         else if val < array ! m then quantize_loop array (int len) val (int l) (int m)
         else quantize_loop array (int len) val (int m) (int h))"
      apply (subst quantize_loop.simps)
      using True less.prems bound
      apply (simp add: mid rdm cm imax imin Let_def)
      done
    show ?thesis
    proof (cases "val = array ! m")
      case True
      then have "code_case array len val (int m * 2)"
        using m less.prems by (auto simp: code_case_def)
      then show ?thesis using step True by simp
    next
      case False
      show ?thesis
      proof (cases "val < array ! m")
        case True
        have "\<exists>r. quantize_loop array (int len) val (int l) (int m) = Inr r \<and> code_case array len val r"
          using less.hyps [of m l] m less.prems True by simp
        then show ?thesis using step False True by simp
      next
        case nl: False
        have "\<exists>r. quantize_loop array (int len) val (int m) (int h) = Inr r \<and> code_case array len val r"
          using less.hyps [of h m] m less.prems False nl by simp
        then show ?thesis using step False nl by simp
      qed
    qed
  next
    case False
    then have h: "h = l + 1" using less.prems by simp
    have rdl: "rd array (int l) = Inr (array ! l)"
      using less.prems len by (simp add: rd_def)
    have c1: "c_int (int l * 2) = Inr (int l * 2)" "c_int (int len * 2) = Inr (int len * 2)"
      "c_int (int l * 2 + 1) = Inr (int l * 2 + 1)"
      using less.prems bound by (simp_all add: c_int_def imax imin)
    have step: "quantize_loop array (int len) val (int l) (int h) =
        (if array ! l = val then Inr (int l * 2)
         else if h = len then Inr (int len * 2)
         else Inr (int l * 2 + 1))"
      apply (subst quantize_loop.simps)
      using False less.prems bound
      apply (simp add: rdl c1 imax imin)
      done
    show ?thesis
    proof (cases "array ! l = val")
      case True
      then have "code_case array len val (int l * 2)"
        using less.prems by (auto simp: code_case_def)
      then show ?thesis using step True by simp
    next
      case ne: False
      then have lt: "array ! l < val" using less.prems by simp
      show ?thesis
      proof (cases "h = len")
        case True
        then have "code_case array len val (int len * 2)"
          using lt h by (auto simp: code_case_def)
        then show ?thesis using step ne True by simp
      next
        case False
        then have "l + 1 < len" "val < array ! (l + 1)" using less.prems h by simp_all
        then have "code_case array len val (int l * 2 + 1)"
          using lt by (auto simp: code_case_def)
        then show ?thesis using step ne False by simp
      qed
    qed
  qed
qed


lemma th_begin_from_nth:
  "fid < length cps \<Longrightarrow> th_begin_from accum cps ! fid = int (accum + length (concat (take fid cps)))"
proof (induction cps arbitrary: accum fid)
  case Nil
  then show ?case by simp
next
  case (Cons e es)
  then show ?case by (cases fid) simp_all
qed

lemma th_begin_from_length: "length (th_begin_from accum cps) = length cps"
  by (induction cps arbitrary: accum) simp_all

lemma drop_concat_take:
  "fid < length cps \<Longrightarrow>
   drop (length (concat (take fid cps))) (concat cps) = cps ! fid @ concat (drop (Suc fid) cps)"
proof (induction cps arbitrary: fid)
  case Nil
  then show ?case by simp
next
  case (Cons e es)
  then show ?case by (cases fid) simp_all
qed

lemma length_concat_take_le:
  "length (concat (take fid cps)) \<le> length (concat cps)"
proof -
  have "concat cps = concat (take fid cps) @ concat (drop fid cps)"
    by (metis append_take_drop_id concat_append)
  then have "length (concat cps) = length (concat (take fid cps)) + length (concat (drop fid cps))"
    by (metis length_append)
  then show ?thesis by simp
qed

lemma quantize_feature_array:
  assumes "fid < length cps"
  shows "quantize_feature cps val fid =
         quantize_array (cps ! fid @ concat (drop (Suc fid) cps)) (int (length (cps ! fid))) val"
proof -
  have b: "rd (th_begin_table cps) (int fid) = Inr (int (length (concat (take fid cps))))"
    using assms by (simp add: rd_def th_begin_table_def th_begin_from_length th_begin_from_nth)
  have l: "rd (th_len_table cps) (int fid) = Inr (int (length (cps ! fid)))"
    using assms by (simp add: rd_def th_len_table_def)
  show ?thesis
    using length_concat_take_le [of fid cps]
    by (simp add: quantize_feature_def quantize_def b l
        drop_concat_take [OF assms])
qed

lemma th_begin_from_map:
  "th_begin_from accum (map (map g) cps) = th_begin_from accum cps"
  by (induction cps arbitrary: accum) simp_all

lemma quantize_emitted_feature:
  "quantize_emitted ext cps val fid = quantize_feature (emitted_cut_pts ext cps) val fid"
  by (simp add: quantize_emitted_def quantize_feature_def threshold_table_def emitted_cut_pts_def
      th_begin_table_def th_len_table_def th_begin_from_map comp_def)


lemma sorted_distinct_strict_upto:
  assumes "sorted xs" "distinct xs"
  shows "strict_upto (xs @ rest) (length xs)"
  unfolding strict_upto_def
proof (intro conjI allI impI)
  show "length xs \<le> length (xs @ rest)" by simp
next
  fix i j assume ij: "i < j \<and> j < length xs"
  then have "xs ! i \<le> xs ! j" using assms(1) by (simp add: sorted_nth_mono)
  moreover have "xs ! i \<noteq> xs ! j" using assms(2) ij by (simp add: nth_eq_iff_index_eq)
  ultimately show "(xs @ rest) ! i < (xs @ rest) ! j" using ij by (simp add: nth_append)
qed

lemma quantize_array_correct:
  assumes su: "strict_upto array len" and ne: "0 < len" and bound: "2 * int len \<le> INT_MAX"
  shows "\<exists>r. quantize_array array (int len) val = Inr r \<and>
             (val < array ! 0 \<longrightarrow> r = - 10) \<and> (array ! 0 \<le> val \<longrightarrow> code_case array len val r)"
proof -
  have r0: "rd array 0 = Inr (array ! 0)"
    using su ne by (auto simp: rd_def strict_upto_def)
  show ?thesis
  proof (cases "val < array ! 0")
    case True
    then have "\<not> array ! 0 \<le> val" by simp
    then show ?thesis using True by (simp add: quantize_array_def r0)
  next
    case False
    then have le: "array ! 0 \<le> val" by simp
    have "\<exists>r. quantize_loop array (int len) val (int 0) (int len) = Inr r \<and> code_case array len val r"
      by (rule quantize_loop_correct [OF su bound]) (use ne le in simp_all)
    then show ?thesis using False le by (simp add: quantize_array_def r0)
  qed
qed

lemma below_first_excludes:
  assumes su: "strict_upto array len" and lt: "val < array ! 0"
  shows "(\<forall>i < len. val \<noteq> array ! i) \<and> \<not> array ! (len - 1) < val \<and>
         (\<forall>i. i + 1 < len \<longrightarrow> \<not> array ! i < val)"
proof -
  have ge: "array ! 0 \<le> array ! i" if "i < len" for i
  proof (cases "i = 0")
    case True then show ?thesis by simp
  next
    case False
    then have "array ! 0 < array ! i" using su that by (simp add: strict_upto_def)
    then show ?thesis by simp
  qed
  show ?thesis
  proof (intro conjI allI impI)
    fix i assume "i < len" then show "val \<noteq> array ! i" using ge [of i] lt by auto
  next
    show "\<not> array ! (len - 1) < val"
    proof (cases "len = 0")
      case True then show ?thesis using lt by simp
    next
      case False then show ?thesis using ge [of "len - 1"] lt by auto
    qed
  next
    fix i assume "i + 1 < len" then show "\<not> array ! i < val" using ge [of i] lt by auto
  qed
qed

lemma quantize_feature_codes:
  fixes cut_pts :: "'a::linorder list list"
  assumes fid: "fid < length cut_pts" and arr: "array = cut_pts ! fid" and ne: "array \<noteq> []"
    and so: "sorted array" and di: "distinct array"
    and bound: "2 * int (length array) \<le> INT_MAX"
  shows "\<exists>r. quantize_feature cut_pts v fid = Inr r \<and>
     (v < array ! 0 \<longrightarrow> r = - 10) \<and>
     (\<forall>i < length array. v = array ! i \<longrightarrow> r = int i * 2) \<and>
     (array ! (length array - 1) < v \<longrightarrow> r = int (length array) * 2) \<and>
     (\<forall>i. i + 1 < length array \<and> array ! i < v \<and> v < array ! (i + 1) \<longrightarrow> r = int i * 2 + 1)"
proof -
  define rest where "rest = concat (drop (Suc fid) cut_pts)"
  define mem where "mem = array @ rest"
  define len where "len = length array"
  have su: "strict_upto mem len"
    unfolding mem_def len_def by (rule sorted_distinct_strict_upto [OF so di])
  have pos: "0 < len" using ne by (simp add: len_def)
  have nth: "mem ! i = array ! i" if "i < len" for i
    using that by (simp add: mem_def len_def nth_append)
  have q: "quantize_feature cut_pts v fid = quantize_array mem (int len) v"
    using quantize_feature_array [OF fid, of v] by (simp add: mem_def rest_def len_def arr)
  obtain r where r: "quantize_array mem (int len) v = Inr r"
    "v < mem ! 0 \<longrightarrow> r = - 10" "mem ! 0 \<le> v \<longrightarrow> code_ok mem len v r"
    using quantize_array_correct [OF su pos, of v] code_case_ok [OF su] bound by (auto simp: len_def)
  have ex: "(\<forall>i < len. v \<noteq> mem ! i) \<and> \<not> mem ! (len - 1) < v \<and> (\<forall>i. i + 1 < len \<longrightarrow> \<not> mem ! i < v)"
    if "v < mem ! 0"
    using below_first_excludes [OF su that] .
  have c1: "v < array ! 0 \<longrightarrow> r = - 10" using r(2) nth [of 0] pos by simp
  have c2: "\<forall>i < length array. v = array ! i \<longrightarrow> r = int i * 2"
  proof (intro allI impI)
    fix i assume i: "i < length array" "v = array ! i"
    then have vi: "mem ! i = v" "i < len" using nth [of i] by (simp_all add: len_def)
    show "r = int i * 2"
    proof (cases "v < mem ! 0")
      case True then show ?thesis using ex vi by auto
    next
      case False then show ?thesis using r(3) vi by (auto simp: code_ok_def)
    qed
  qed
  have c3: "array ! (length array - 1) < v \<longrightarrow> r = int (length array) * 2"
  proof
    assume "array ! (length array - 1) < v"
    then have a: "mem ! (len - 1) < v" using nth [of "len - 1"] pos by (simp add: len_def)
    show "r = int (length array) * 2"
    proof (cases "v < mem ! 0")
      case True then show ?thesis using ex a by auto
    next
      case False then show ?thesis using r(3) a by (auto simp: code_ok_def len_def)
    qed
  qed
  have c4: "\<forall>i. i + 1 < length array \<and> array ! i < v \<and> v < array ! (i + 1) \<longrightarrow> r = int i * 2 + 1"
  proof (intro allI impI)
    fix i assume "i + 1 < length array \<and> array ! i < v \<and> v < array ! (i + 1)"
    then have a: "i + 1 < len" "mem ! i < v" "v < mem ! (i + 1)"
      using nth [of i] nth [of "i + 1"] by (simp_all add: len_def)
    show "r = int i * 2 + 1"
    proof (cases "v < mem ! 0")
      case True then show ?thesis using ex a by auto
    next
      case False then show ?thesis using r(3) a by (auto simp: code_ok_def)
    qed
  qed
  show ?thesis using q r(1) c1 c2 c3 c4 by simp
qed





subsection \<open>Binary search in the cut-point list\<close>

lemma lower_bound_correct:
  fixes v :: "'a::linorder list"
  assumes so: "sorted v"
  shows "first + len \<le> length v \<Longrightarrow> (\<forall>j < first. v ! j < val) \<Longrightarrow>
         (\<forall>j. first + len \<le> j \<and> j < length v \<longrightarrow> val \<le> v ! j) \<Longrightarrow>
         lower_bound v val first len \<le> length v \<and>
         (\<forall>j < lower_bound v val first len. v ! j < val) \<and>
         (\<forall>j. lower_bound v val first len \<le> j \<and> j < length v \<longrightarrow> val \<le> v ! j)"
proof (induction len arbitrary: first rule: less_induct)
  case (less len)
  show ?case
  proof (cases "0 < len")
    case False
    then have "lower_bound v val first len = first" by (simp add: lower_bound.simps)
    then show ?thesis using less.prems False by simp
  next
    case True
    define half where "half = len div 2"
    define middle where "middle = first + half"
    have mid: "middle < first + len" "middle < length v"
      using True less.prems(1) by (simp_all add: middle_def half_def)
    show ?thesis
    proof (cases "v ! middle < val")
      case lt: True
      have eq: "lower_bound v val first len = lower_bound v val (middle + 1) (len - half - 1)"
        using True lt by (subst lower_bound.simps) (simp add: Let_def half_def middle_def)
      have d: "len - half - 1 < len" using True by simp
      have a: "middle + 1 + (len - half - 1) \<le> length v"
        using less.prems(1) True by (simp add: middle_def half_def)
      have b: "\<forall>j < middle + 1. v ! j < val"
      proof (intro allI impI)
        fix j assume "j < middle + 1"
        then have "v ! j \<le> v ! middle" using so mid by (simp add: sorted_nth_mono)
        then show "v ! j < val" using lt by simp
      qed
      have c: "\<forall>j. middle + 1 + (len - half - 1) \<le> j \<and> j < length v \<longrightarrow> val \<le> v ! j"
        using less.prems(3) True by (simp add: middle_def half_def)
      show ?thesis
        unfolding eq using less.IH [OF d a b c] .
    next
      case ge: False
      have eq: "lower_bound v val first len = lower_bound v val first half"
        using True ge by (subst lower_bound.simps) (simp add: Let_def half_def middle_def)
      have d: "half < len" using True by (simp add: half_def)
      have a: "first + half \<le> length v" using mid by (simp add: middle_def)
      have c: "\<forall>j. first + half \<le> j \<and> j < length v \<longrightarrow> val \<le> v ! j"
      proof (intro allI impI)
        fix j assume j: "first + half \<le> j \<and> j < length v"
        then have "v ! middle \<le> v ! j" using so by (simp add: sorted_nth_mono middle_def)
        then show "val \<le> v ! j" using ge by simp
      qed
      show ?thesis
        unfolding eq using less.IH [OF d a less.prems(2) c] .
    qed
  qed
qed

lemma binary_search_finds:
  fixes v :: "'a::linorder list"
  assumes so: "sorted v" and di: "distinct v" and p: "p < length v" and t: "v ! p = t"
  shows "binary_search v t = Some p"
proof -
  define i where "i = lower_bound v t 0 (length v)"
  have "lower_bound v t 0 (length v) \<le> length v \<and>
         (\<forall>j < lower_bound v t 0 (length v). v ! j < t) \<and>
         (\<forall>j. lower_bound v t 0 (length v) \<le> j \<and> j < length v \<longrightarrow> t \<le> v ! j)"
    by (rule lower_bound_correct [OF so]) auto
  then have lb: "i \<le> length v" "\<forall>j < i. v ! j < t" "\<forall>j. i \<le> j \<and> j < length v \<longrightarrow> t \<le> v ! j"
    by (simp_all add: i_def)
  have ip: "i \<le> p"
  proof (rule ccontr)
    assume "\<not> i \<le> p"
    then have "v ! p < t" using lb(2) by simp
    then show False using t by simp
  qed
  then have il: "i < length v" using p by simp
  have "t \<le> v ! i" using lb(3) il by simp
  moreover have "v ! i \<le> v ! p" using so ip p by (simp add: sorted_nth_mono)
  ultimately have vi: "v ! i = t" using t by simp
  then have "v ! i = v ! p" using t by simp
  then have "i = p" using di il p nth_eq_iff_index_eq [of v i p] by simp
  then have "lower_bound v t 0 (length v) = p" by (simp add: i_def)
  then show ?thesis using p t by (simp add: binary_search_def)
qed



lemma binary_search_mem:
  fixes v :: "'a::linorder list"
  assumes "sorted v" "distinct v" "t \<in> set v"
  shows "\<exists>p. binary_search v t = Some p \<and> p < length v \<and> v ! p = t"
proof -
  obtain p where "p < length v" "v ! p = t" using assms(3) by (auto simp: in_set_conv_nth)
  then show ?thesis using binary_search_finds [OF assms(1,2)] by blast
qed

lemma numeric_adapter_Quantize:
  fixes cut_pts :: "'a::linorder list list"
  assumes "fid < length cut_pts" "sorted (cut_pts ! fid)" "distinct (cut_pts ! fid)"
    "p < length (cut_pts ! fid)" "cut_pts ! fid ! p = t"
  shows "numeric_adapter (Quantize_adapter cut_pts) op fid t = Inr (QCmp fid op (p * 2))"
  using assms binary_search_finds [of "cut_pts ! fid" p t]
  by (simp add: numeric_adapter_def rd_def)

subsection \<open>Claims about quantization\<close>

text \<open>
  C2. For a feature whose cut-point list is not empty, sorted and free of duplicates, and
  small enough for twice its length to be an \<open>int\<close>, the helper returns a code \<open>r\<close> for every
  value \<open>v\<close>: \<open>-10\<close> when \<open>v\<close> is below the first cut point, \<open>i * 2\<close> when \<open>v\<close> equals the
  cut point at index \<open>i\<close>, \<open>len * 2\<close> when \<open>v\<close> is above the last cut point, and \<open>i * 2 + 1\<close>
  when \<open>v\<close> lies strictly between the cut points at \<open>i\<close> and \<open>i + 1\<close>. The search is the
  loop \<open>quantize_loop\<close> started at \<open>low = 0\<close>, \<open>high = len\<close>.
\<close>

theorem quantize_returns_codes:
  fixes cut_pts :: "'a::linorder list list"
  assumes "fid < length cut_pts" and "array = cut_pts ! fid" and "array \<noteq> []"
    and "sorted array" and "distinct array"
    and "2 * int (length array) \<le> INT_MAX"
  shows "\<exists>r. quantize_feature cut_pts v fid = Inr r \<and>
     (v < array ! 0 \<longrightarrow> r = - 10) \<and>
     (\<forall>i < length array. v = array ! i \<longrightarrow> r = int i * 2) \<and>
     (array ! (length array - 1) < v \<longrightarrow> r = int (length array) * 2) \<and>
     (\<forall>i. i + 1 < length array \<and> array ! i < v \<and> v < array ! (i + 1) \<longrightarrow> r = int i * 2 + 1)"
  using assms by (rule quantize_feature_codes)

theorem quantize_returns_codes_witness:
  "quantize_feature [[2], [1, 3, 5 :: int]] 0 1 = Inr (- 10) \<and>
   quantize_feature [[2], [1, 3, 5 :: int]] 3 1 = Inr 2 \<and>
   quantize_feature [[2], [1, 3, 5 :: int]] 6 1 = Inr 6 \<and>
   quantize_feature [[2], [1, 3, 5 :: int]] 4 1 = Inr 3"
proof -
  have h: "(1::nat) < length [[2], [1, 3, 5 :: int]]" "[1, 3, 5 :: int] = [[2], [1, 3, 5]] ! 1"
    "[1, 3, 5 :: int] \<noteq> []" "sorted [1, 3, 5 :: int]" "distinct [1, 3, 5 :: int]"
    "2 * int (length [1, 3, 5 :: int]) \<le> INT_MAX"
    by (simp_all add: INT_MAX_def)
  have a: "quantize_feature [[2], [1, 3, 5 :: int]] 0 1 = Inr (- 10)"
    using quantize_returns_codes [OF h, of 0] by auto
  have b: "quantize_feature [[2], [1, 3, 5 :: int]] 3 1 = Inr 2"
    using quantize_returns_codes [OF h, of 3] by (auto dest: spec [of _ 1])
  have c: "quantize_feature [[2], [1, 3, 5 :: int]] 6 1 = Inr 6"
    using quantize_returns_codes [OF h, of 6] by auto
  have d: "quantize_feature [[2], [1, 3, 5 :: int]] 4 1 = Inr 3"
    using quantize_returns_codes [OF h, of 4] by (auto dest: spec [of _ 1])
  show ?thesis using a b c d by simp
qed



lemma ext0_prints_1234567:
  "float_out ext0 1234567 = ''1.23457e+06''"
  "c_float ext0 ''1.23457e+06'' = 1234570"
  by (simp_all add: ext0_def stream_float_def sig6_def dec_len.simps round_half_even_def Let_def
      to_string.simps digit_def strip_zeros_def read_float_def read_nat_def digit_val_def)

text \<open>
  C1, on the emitted file. The adapter writes the comparison of the slot's code with
  \<open>p * 2\<close>, where \<open>p\<close> is the position of the threshold among the cut points that the
  compiler holds; the helper computes the code of a value from the threshold table of
  the emitted file, which holds the cut points as the stream has printed them. Where
  every cut point of the feature is read back as it was written the two comparisons
  agree (\<open>quantize_emitted_compare\<close>). For tree C they do not: the threshold 1234567 is
  the only cut point and has position 0, the stream prints it as \<^verbatim>\<open>1.23457e+06\<close>, so the
  table holds 1234570; the helper gives the value 1234567 the code \<open>-10\<close>, the emitted
  loop stores it, and the condition \<open>qvalue < 0\<close> holds and runs the code of the left
  child, while \<open>1234567 < 1234567\<close> does not hold.
\<close>

theorem quantized_comparison_differs_when_printed_short:
  "ExtractCutPoints model1 = Some (Inr [[1234567]]) \<and>
   numeric_adapter (Quantize_adapter [[1234567 :: int]]) kLT 0 1234567 = Inr (QCmp 0 kLT (0 * 2)) \<and>
   float_out ext0 1234567 = ''1.23457e+06'' \<and>
   threshold_table ext0 [[1234567]] = [1234570] \<and>
   quantize_emitted ext0 [[1234567]] 1234567 0 = Inr (- 10) \<and>
   OpEval kLT (- 10 :: int) (int (0 * 2)) \<and>
   \<not> OpEval kLT (1234567 :: int) 1234567 \<and>
   Preprocessing_run ext0 Quantize \<lparr>meta_num_features = 1, cut_pts = [[1234567]]\<rparr> [FValue 1234567]
     = Inr [IValue (- 10)] \<and>
   taken ext0 (IfElseBlock (SplitCondition 0 True kLT 1234567 (Quantize_adapter [[1234567]]))
                (PlainBlock [''sum += 10;'']) (PlainBlock [''sum += -10;'']) kNone)
         [IValue (- 10)]
     = Inr (PlainBlock [''sum += 10;'']) \<and>
   \<not> branch_left (treeC ! 0) (Some 1234567)"
proof -
  have tm: "trees model1 = [treeC]" "num_features model1 = 1"
    by (simp_all add: model1_def)
  have w: "ExtractCutPoints_walk treeC [0] [{}] = Some (Inr [{1234567}])"
    by (simp add: ExtractCutPoints_walk.simps treeC_def tree_at_def rd_def)
  have a: "ExtractCutPoints model1 = Some (Inr [[1234567]])"
    by (simp add: ExtractCutPoints_def tm w bindR_def)
  have b: "numeric_adapter (Quantize_adapter [[1234567 :: int]]) kLT 0 1234567
           = Inr (QCmp 0 kLT (0 * 2))"
    by (simp add: numeric_adapter_def rd_def binary_search_def lower_bound.simps Let_def)
  have c: "threshold_table ext0 [[1234567]] = [1234570]"
    by (simp add: threshold_table_def emitted_cut_pts_def ext0_prints_1234567)
  have d: "quantize_emitted ext0 [[1234567]] 1234567 0 = Inr (- 10)"
    by (simp add: quantize_emitted_def c quantize_def quantize_array_def rd_def
        th_begin_table_def th_len_table_def)
  have e: "Preprocessing_run ext0 Quantize \<lparr>meta_num_features = 1, cut_pts = [[1234567]]\<rparr>
             [FValue 1234567] = Inr [IValue (- 10)]"
    using d by (simp add: Preprocessing_run_def preprocess_loop.simps rd_def
        quantize_emitted_feature [symmetric])
  have f: "taken ext0 (IfElseBlock (SplitCondition 0 True kLT 1234567 (Quantize_adapter [[1234567]]))
                (PlainBlock [''sum += 10;'']) (PlainBlock [''sum += -10;'']) kNone)
             [IValue (- 10)]
           = Inr (PlainBlock [''sum += 10;''])"
    using b by (simp add: taken_def Compile_def rd_def OpEval_def)
  have g: "\<not> branch_left (treeC ! 0) (Some 1234567)"
    by (simp add: branch_left_def treeC_def OpEval_def)
  show ?thesis
    using a b c d e f g by (simp add: ext0_prints_1234567 OpEval_def)
qed

subsection \<open>Cut-point extraction\<close>

lemma valid_from_size: "valid_from tree nid \<Longrightarrow> \<exists>n. subtree_size tree nid n"
proof (induction rule: valid_from.induct)
  case (valid_leaf nid node)
  then show ?case by (blast intro: size_leaf)
next
  case (valid_split nid node)
  then show ?case by (blast intro: size_split)
qed

lemma reach_child_left:
  assumes "tree_at tree a = Inr node" "\<not> is_leaf node" "reach tree (cleft node) b"
  shows "reach tree a b"
  using assms(3)
proof (induction rule: reach.induct)
  case reach_self
  show ?case by (rule reach_left [OF reach.reach_self assms(1,2)])
next
  case (reach_left b n)
  then show ?case by (blast intro: reach.reach_left)
next
  case (reach_right b n)
  then show ?case by (blast intro: reach.reach_right)
qed

lemma reach_child_right:
  assumes "tree_at tree a = Inr node" "\<not> is_leaf node" "reach tree (cright node) b"
  shows "reach tree a b"
  using assms(3)
proof (induction rule: reach.induct)
  case reach_self
  show ?case by (rule reach_right [OF reach.reach_self assms(1,2)])
next
  case (reach_left b n)
  then show ?case by (blast intro: reach.reach_left)
next
  case (reach_right b n)
  then show ?case by (blast intro: reach.reach_right)
qed

lemma reach_cases_split:
  assumes "tree_at tree a = Inr node" "\<not> is_leaf node" "reach tree a b"
  shows "b = a \<or> reach tree (cleft node) b \<or> reach tree (cright node) b"
  using assms(3)
proof (induction rule: reach.induct)
  case reach_self
  show ?case by simp
next
  case (reach_left b n)
  then show ?case using assms(1) by (auto intro: reach.intros)
next
  case (reach_right b n)
  then show ?case using assms(1) by (auto intro: reach.intros)
qed

lemma reach_cases_leaf:
  assumes "tree_at tree a = Inr node" "is_leaf node" "reach tree a b"
  shows "b = a"
  using assms(3)
proof (induction rule: reach.induct)
  case reach_self
  show ?case by simp
next
  case (reach_left b n)
  then show ?case using assms(1,2) by auto
next
  case (reach_right b n)
  then show ?case using assms(1,2) by auto
qed

lemma feat_thresholds_leaf:
  assumes "tree_at tree a = Inr node" "is_leaf node"
  shows "feat_thresholds tree a f = {}"
proof -
  have "False" if "reach tree a b" "tree_at tree b = Inr n" "\<not> is_leaf n" for b n
  proof -
    have "b = a" by (rule reach_cases_leaf [OF assms that(1)])
    then show False using that assms by simp
  qed
  then show ?thesis by (auto simp: feat_thresholds_def)
qed

lemma feat_thresholds_split:
  assumes "tree_at tree a = Inr node" "\<not> is_leaf node"
  shows "feat_thresholds tree a f =
         (if split_index node = f then {threshold node} else {})
         \<union> feat_thresholds tree (cleft node) f \<union> feat_thresholds tree (cright node) f"
proof (intro set_eqI iffI)
  fix t assume "t \<in> feat_thresholds tree a f"
  then obtain b n where b: "reach tree a b" "tree_at tree b = Inr n" "\<not> is_leaf n"
    "split_index n = f" "t = threshold n"
    by (auto simp: feat_thresholds_def)
  from reach_cases_split [OF assms b(1)]
  show "t \<in> (if split_index node = f then {threshold node} else {})
         \<union> feat_thresholds tree (cleft node) f \<union> feat_thresholds tree (cright node) f"
    using b assms by (auto simp: feat_thresholds_def)
next
  fix t assume "t \<in> (if split_index node = f then {threshold node} else {})
         \<union> feat_thresholds tree (cleft node) f \<union> feat_thresholds tree (cright node) f"
  then consider "split_index node = f" "t = threshold node"
    | "t \<in> feat_thresholds tree (cleft node) f" | "t \<in> feat_thresholds tree (cright node) f"
    by (auto split: if_splits)
  then show "t \<in> feat_thresholds tree a f"
  proof cases
    case 1
    then show ?thesis using assms reach_self [of tree a] by (auto simp: feat_thresholds_def)
  next
    case 2
    then show ?thesis using reach_child_left [OF assms] by (auto simp: feat_thresholds_def)
  next
    case 3
    then show ?thesis using reach_child_right [OF assms] by (auto simp: feat_thresholds_def)
  qed
qed

lemma splits_in_range_children:
  assumes "tree_at tree a = Inr node" "\<not> is_leaf node" "splits_in_range tree a n"
  shows "split_index node < n" "splits_in_range tree (cleft node) n" "splits_in_range tree (cright node) n"
  using assms reach_self [of tree a] reach_child_left [OF assms(1,2)] reach_child_right [OF assms(1,2)]
  unfolding splits_in_range_def by blast+

lemma walk_total:
  fixes tree :: "'a::linorder Tree"
  shows "list_all2 (subtree_size tree) Q ns \<Longrightarrow> \<forall>q \<in> set Q. splits_in_range tree q (length thresh) \<Longrightarrow>
    \<exists>th. ExtractCutPoints_walk tree Q thresh = Some (Inr th) \<and> length th = length thresh \<and>
         (\<forall>f < length thresh. th ! f = thresh ! f \<union> (\<Union>q \<in> set Q. feat_thresholds tree q f))"
proof (induction "sum_list ns" arbitrary: Q ns thresh rule: less_induct)
  case less
  show ?case
  proof (cases Q)
    case Nil
    then show ?thesis by (subst ExtractCutPoints_walk.simps) simp
  next
    case (Cons nid Q')
    then obtain n ns' where ns: "ns = n # ns'" "subtree_size tree nid n"
      "list_all2 (subtree_size tree) Q' ns'"
      using less.prems(1) by (auto simp: list_all2_Cons1)
    have rng: "splits_in_range tree nid (length thresh)" "\<forall>q \<in> set Q'. splits_in_range tree q (length thresh)"
      using less.prems(2) Cons by simp_all
    from ns(2) show ?thesis
    proof (cases rule: subtree_size.cases)
      case (size_leaf node)
      have step: "ExtractCutPoints_walk tree Q thresh = ExtractCutPoints_walk tree Q' thresh"
        using size_leaf Cons by (subst ExtractCutPoints_walk.simps) simp
      have "\<exists>th. ExtractCutPoints_walk tree Q' thresh = Some (Inr th) \<and> length th = length thresh \<and>
         (\<forall>f < length thresh. th ! f = thresh ! f \<union> (\<Union>q \<in> set Q'. feat_thresholds tree q f))"
        by (rule less.hyps [OF _ ns(3) rng(2)]) (use ns(1) size_leaf in simp)
      then show ?thesis
        using step Cons feat_thresholds_leaf [OF size_leaf(2,3)] by simp
    next
      case (size_split node a b)
      define si where "si = split_index node"
      define t where "t = threshold node"
      define thresh2 where "thresh2 = thresh[si := insert t (thresh ! si)]"
      have si: "si < length thresh"
        using splits_in_range_children(1) [OF size_split(2,3) rng(1)] by (simp add: si_def)
      have step: "ExtractCutPoints_walk tree Q thresh =
                  ExtractCutPoints_walk tree (Q' @ [cleft node, cright node]) thresh2"
        using size_split Cons si
        by (subst ExtractCutPoints_walk.simps) (simp add: Let_def si_def t_def thresh2_def)
      have l2: "list_all2 (subtree_size tree) (Q' @ [cleft node, cright node]) (ns' @ [a, b])"
        using ns(3) size_split(4,5) by (simp add: list_all2_appendI)
      have r2: "\<forall>q \<in> set (Q' @ [cleft node, cright node]). splits_in_range tree q (length thresh2)"
        using rng(2) splits_in_range_children(2,3) [OF size_split(2,3) rng(1)]
        by (auto simp: thresh2_def)
      have "\<exists>th. ExtractCutPoints_walk tree (Q' @ [cleft node, cright node]) thresh2 = Some (Inr th) \<and>
          length th = length thresh2 \<and>
          (\<forall>f < length thresh2. th ! f = thresh2 ! f \<union>
             (\<Union>q \<in> set (Q' @ [cleft node, cright node]). feat_thresholds tree q f))"
        by (rule less.hyps [OF _ l2 r2]) (use ns(1) size_split(1) in simp)
      then obtain th where th: "ExtractCutPoints_walk tree (Q' @ [cleft node, cright node]) thresh2 = Some (Inr th)"
        "length th = length thresh"
        "\<forall>f < length thresh. th ! f = thresh2 ! f \<union>
             (\<Union>q \<in> set (Q' @ [cleft node, cright node]). feat_thresholds tree q f)"
        by (auto simp: thresh2_def)
      have "th ! f = thresh ! f \<union> (\<Union>q \<in> set Q. feat_thresholds tree q f)" if f: "f < length thresh" for f
      proof -
        have a: "thresh2 ! f = thresh ! f \<union> (if si = f then {t} else {})"
          using f si by (auto simp: thresh2_def nth_list_update)
        have b: "feat_thresholds tree nid f = (if si = f then {t} else {})
            \<union> feat_thresholds tree (cleft node) f \<union> feat_thresholds tree (cright node) f"
          using feat_thresholds_split [OF size_split(2,3), of f] by (simp add: si_def t_def)
        show ?thesis using th(3) f a b Cons by auto
      qed
      then show ?thesis using step th(1,2) by simp
    qed
  qed
qed


lemma bindR_simps [simp]:
  "bindR None f = None"
  "bindR (Some (Inl e)) f = Some (Inl e)"
  "bindR (Some (Inr x)) f = f x"
  by (simp_all add: bindR_def)

lemma bindR_eq_Some_Inr:
  "bindR m f = Some (Inr y) \<longleftrightarrow> (\<exists>x. m = Some (Inr x) \<and> f x = Some (Inr y))"
  by (auto simp: bindR_def split: option.splits sum.splits)

lemma trees_total:
  fixes ts :: "'a::linorder Tree list"
  shows "\<forall>tree \<in> set ts. valid_from tree 0 \<and> splits_in_range tree 0 (length thresh) \<Longrightarrow>
    \<exists>th. ExtractCutPoints_trees ts thresh = Some (Inr th) \<and> length th = length thresh \<and>
         (\<forall>f < length thresh. th ! f = thresh ! f \<union> (\<Union>tree \<in> set ts. feat_thresholds tree 0 f))"
proof (induction ts arbitrary: thresh)
  case Nil
  then show ?case by simp
next
  case (Cons tree rest)
  obtain n where n: "subtree_size tree 0 n"
    using Cons.prems valid_from_size [of tree 0] by auto
  have "\<exists>th. ExtractCutPoints_walk tree [0] thresh = Some (Inr th) \<and> length th = length thresh \<and>
         (\<forall>f < length thresh. th ! f = thresh ! f \<union> (\<Union>q \<in> set [0]. feat_thresholds tree q f))"
    by (rule walk_total [of tree "[0]" "[n]"]) (use n Cons.prems in simp_all)
  then obtain th1 where th1: "ExtractCutPoints_walk tree [0] thresh = Some (Inr th1)"
    "length th1 = length thresh" "\<forall>f < length thresh. th1 ! f = thresh ! f \<union> feat_thresholds tree 0 f"
    by auto
  have "\<exists>th. ExtractCutPoints_trees rest th1 = Some (Inr th) \<and> length th = length th1 \<and>
         (\<forall>f < length th1. th ! f = th1 ! f \<union> (\<Union>tree \<in> set rest. feat_thresholds tree 0 f))"
    by (rule Cons.IH) (use Cons.prems th1(2) in simp)
  then obtain th where th: "ExtractCutPoints_trees rest th1 = Some (Inr th)" "length th = length thresh"
    "\<forall>f < length thresh. th ! f = th1 ! f \<union> (\<Union>tree \<in> set rest. feat_thresholds tree 0 f)"
    using th1(2) by auto
  have "th ! f = thresh ! f \<union> (\<Union>tree \<in> set (tree # rest). feat_thresholds tree 0 f)"
    if "f < length thresh" for f
    using th(3) th1(3) that by auto
  then show ?case using th1(1) th(1,2) by simp
qed

lemma finite_feat_thresholds: "finite (feat_thresholds tree a f)"
proof -
  have "feat_thresholds tree a f \<subseteq> threshold ` set tree"
    by (auto simp: feat_thresholds_def tree_at_def rd_def split: if_splits)
  then show ?thesis by (rule finite_subset) simp
qed

lemma ExtractCutPoints_total:
  fixes model :: "'a::linorder Model"
  assumes nf: "0 \<le> num_features model"
    and ok: "\<forall>tree \<in> set (trees model). valid_from tree 0 \<and> splits_in_range tree 0 (nat (num_features model))"
  shows "ExtractCutPoints model =
         Some (Inr (map (\<lambda>f. sorted_list_of_set (\<Union>tree \<in> set (trees model). feat_thresholds tree 0 f))
                        [0 ..< nat (num_features model)]))"
proof -
  define n where "n = nat (num_features model)"
  define thresh :: "'a set list" where "thresh = replicate n {}"
  have "\<exists>th. ExtractCutPoints_trees (trees model) thresh = Some (Inr th) \<and> length th = length thresh \<and>
         (\<forall>f < length thresh. th ! f = thresh ! f \<union> (\<Union>tree \<in> set (trees model). feat_thresholds tree 0 f))"
    by (rule trees_total) (use ok in \<open>simp add: thresh_def n_def\<close>)
  then obtain th where th: "ExtractCutPoints_trees (trees model) thresh = Some (Inr th)"
    "length th = n" "\<forall>f < n. th ! f = (\<Union>tree \<in> set (trees model). feat_thresholds tree 0 f)"
    by (auto simp: thresh_def)
  have "map (\<lambda>i. sorted_list_of_set (th ! i)) [0 ..< n] =
        map (\<lambda>f. sorted_list_of_set (\<Union>tree \<in> set (trees model). feat_thresholds tree 0 f)) [0 ..< n]"
    using th(3) by simp
  then show ?thesis
    using nf th(1) by (simp add: ExtractCutPoints_def n_def [symmetric] thresh_def [symmetric])
qed

lemma valid_tree_splits_in_range:
  assumes "valid_tree nf tree"
  shows "splits_in_range tree 0 (nat nf)"
  unfolding splits_in_range_def
proof (intro allI impI)
  fix b node assume a: "reach tree 0 b \<and> tree_at tree b = Inr node \<and> \<not> is_leaf node"
  then have "node \<in> set tree" by (auto simp: tree_at_def rd_def split: if_splits)
  then have "int (split_index node) < nf" using assms a by (auto simp: valid_tree_def)
  then show "split_index node < nat nf" by simp
qed

lemma valid_tree_feat_thresholds:
  assumes "valid_tree nf tree"
  shows "feat_thresholds tree 0 f =
         {t. \<exists>node \<in> set tree. \<not> is_leaf node \<and> split_index node = f \<and> threshold node = t}"
proof (intro set_eqI iffI)
  fix t assume "t \<in> feat_thresholds tree 0 f"
  then obtain b node where "tree_at tree b = Inr node" "\<not> is_leaf node" "split_index node = f"
    "t = threshold node"
    by (auto simp: feat_thresholds_def)
  moreover from this have "node \<in> set tree" by (auto simp: tree_at_def rd_def split: if_splits)
  ultimately show "t \<in> {t. \<exists>node \<in> set tree. \<not> is_leaf node \<and> split_index node = f \<and> threshold node = t}"
    by auto
next
  fix t assume "t \<in> {t. \<exists>node \<in> set tree. \<not> is_leaf node \<and> split_index node = f \<and> threshold node = t}"
  then obtain node where node: "node \<in> set tree" "\<not> is_leaf node" "split_index node = f" "threshold node = t"
    by auto
  then obtain i where i: "i < length tree" "tree ! i = node" by (auto simp: in_set_conv_nth)
  then have "reach tree 0 (int i)" using assms by (simp add: valid_tree_def)
  moreover have "tree_at tree (int i) = Inr node" using i by (simp add: tree_at_def rd_def)
  ultimately show "t \<in> feat_thresholds tree 0 f"
    using node by (auto simp: feat_thresholds_def)
qed

lemma ExtractCutPoints_valid:
  fixes model :: "'a::linorder Model"
  assumes "valid_model model"
  shows "\<exists>cps. ExtractCutPoints model = Some (Inr cps) \<and>
     length cps = nat (num_features model) \<and>
     (\<forall>f < nat (num_features model).
        sorted (cps ! f) \<and> distinct (cps ! f) \<and>
        (\<forall>t. t \<in> set (cps ! f) \<longleftrightarrow>
           (\<exists>tree \<in> set (trees model). \<exists>node \<in> set tree.
              \<not> is_leaf node \<and> split_index node = f \<and> threshold node = t)))"
proof -
  define n where "n = nat (num_features model)"
  define S where "S = (\<lambda>f. \<Union>tree \<in> set (trees model). feat_thresholds tree 0 f)"
  have nf: "0 \<le> num_features model" using assms by (simp add: valid_model_def)
  have vt: "valid_tree (num_features model) tree" if "tree \<in> set (trees model)" for tree
    using assms that by (simp add: valid_model_def)
  have ok: "\<forall>tree \<in> set (trees model). valid_from tree 0 \<and> splits_in_range tree 0 (nat (num_features model))"
  proof
    fix tree assume t: "tree \<in> set (trees model)"
    have "valid_from tree 0" using vt [OF t] by (simp add: valid_tree_def)
    moreover have "splits_in_range tree 0 (nat (num_features model))"
      by (rule valid_tree_splits_in_range [OF vt [OF t]])
    ultimately show "valid_from tree 0 \<and> splits_in_range tree 0 (nat (num_features model))" by simp
  qed
  have e: "ExtractCutPoints model = Some (Inr (map (\<lambda>f. sorted_list_of_set (S f)) [0 ..< n]))"
    using ExtractCutPoints_total [OF nf ok] by (simp add: S_def n_def)
  have fin: "finite (S f)" for f by (simp add: S_def finite_feat_thresholds)
  have mem: "t \<in> S f \<longleftrightarrow> (\<exists>tree \<in> set (trees model). \<exists>node \<in> set tree.
              \<not> is_leaf node \<and> split_index node = f \<and> threshold node = t)" for t f
    using valid_tree_feat_thresholds [OF vt] by (auto simp: S_def)
  show ?thesis
    using e fin mem by (simp add: n_def [symmetric])
qed

lemma walk_partial:
  fixes tree :: "'a::linorder Tree"
  assumes "ExtractCutPoints_walk tree Q thresh = Some r"
  shows "\<forall>th. r = Inr th \<longrightarrow> walk_post tree Q thresh th"
proof (rule ExtractCutPoints_walk.raw_induct
    [where P = "\<lambda>tree Q thresh r. \<forall>th. r = Inr th \<longrightarrow> walk_post tree Q thresh th", OF _ assms])
  fix walk :: "'a Tree \<Rightarrow> int list \<Rightarrow> 'a set list \<Rightarrow> (fault + 'a set list) option"
    and tree Q thresh r
  assume 1: "\<And>tree Q thresh r. walk tree Q thresh = Some r \<Longrightarrow>
                \<forall>th. r = Inr th \<longrightarrow> walk_post tree Q thresh th"
    "(case Q of
        [] \<Rightarrow> Some (Inr thresh)
      | nid # Q' \<Rightarrow>
          (case tree_at tree nid of
             Inl e \<Rightarrow> Some (Inl e)
           | Inr node \<Rightarrow>
               if \<not> is_leaf node then
                 (let threshold' = threshold node; split_index' = split_index node in
                  if split_index' < length thresh then
                    walk tree (Q' @ [cleft node, cright node])
                      (thresh[split_index' := insert threshold' (thresh ! split_index')])
                  else Some (Inl OutOfBounds))
               else walk tree Q' thresh)) = Some r"
  show "\<forall>th. r = Inr th \<longrightarrow> walk_post tree Q thresh th"
  proof (cases Q)
    case Nil
    then show ?thesis using 1(2) by (auto simp: walk_post_def)
  next
    case (Cons nid Q')
    show ?thesis
    proof (cases "tree_at tree nid")
      case (Inl e)
      then show ?thesis using 1(2) Cons by auto
    next
      case (Inr node)
      show ?thesis
      proof (cases "is_leaf node")
        case True
        then have w: "walk tree Q' thresh = Some r" using 1(2) Cons Inr by simp
        have "\<forall>th. r = Inr th \<longrightarrow> walk_post tree Q' thresh th" by (rule 1(1) [OF w])
        moreover have "\<not> (reach tree nid b \<and> tree_at tree b = Inr n \<and> \<not> is_leaf n)" for b n
          using reach_cases_leaf [OF Inr True, of b] Inr True by auto
        ultimately show ?thesis using Cons by (auto simp: walk_post_def)
      next
        case False
        define si where "si = split_index node"
        define t where "t = threshold node"
        define thresh2 where "thresh2 = thresh[si := insert t (thresh ! si)]"
        show ?thesis
        proof (cases "si < length thresh")
          case oob: False
          then show ?thesis using 1(2) Cons Inr False by (auto simp: Let_def si_def)
        next
          case True
          have w: "walk tree (Q' @ [cleft node, cright node]) thresh2 = Some r"
            using 1(2) Cons Inr False True by (simp add: Let_def si_def t_def thresh2_def)
          have ih: "\<forall>th. r = Inr th \<longrightarrow> walk_post tree (Q' @ [cleft node, cright node]) thresh2 th"
            by (rule 1(1) [OF w])
          show ?thesis
          proof (intro allI impI)
            fix th assume r: "r = Inr th"
            then have p: "walk_post tree (Q' @ [cleft node, cright node]) thresh2 th" using ih by simp
            have len: "length th = length thresh" using p by (simp add: walk_post_def thresh2_def)
            have sub2: "thresh2 ! f \<subseteq> th ! f" if "f < length thresh" for f
              using p that by (simp add: walk_post_def thresh2_def)
            have t2: "thresh2 ! f = (if f = si then insert t (thresh ! f) else thresh ! f)"
              if "f < length thresh" for f
              using that by (simp add: thresh2_def nth_list_update)
            have sub: "\<forall>f < length thresh. thresh ! f \<subseteq> th ! f"
            proof (intro allI impI)
              fix f assume f: "f < length thresh"
              have "thresh ! f \<subseteq> thresh2 ! f" using t2 [OF f] by auto
              then show "thresh ! f \<subseteq> th ! f" using sub2 [OF f] by simp
            qed
            have tin: "t \<in> th ! si" using sub2 [OF True] t2 [OF True] by auto
            have fin: "(\<forall>f < length thresh. finite (thresh ! f)) \<longrightarrow> (\<forall>f < length thresh. finite (th ! f))"
            proof
              assume a: "\<forall>f < length thresh. finite (thresh ! f)"
              then have "\<forall>f < length thresh2. finite (thresh2 ! f)"
                using t2 by (simp add: thresh2_def)
              then show "\<forall>f < length thresh. finite (th ! f)"
                using p by (simp add: walk_post_def thresh2_def)
            qed
            have rq: "split_index n < length thresh \<and> threshold n \<in> th ! split_index n"
              if "q \<in> set (Q' @ [cleft node, cright node])" "reach tree q b" "tree_at tree b = Inr n" "\<not> is_leaf n"
              for q b n
              using p that unfolding walk_post_def thresh2_def by (simp only: length_list_update) blast
            have "split_index n < length thresh \<and> threshold n \<in> th ! split_index n"
              if q: "q \<in> set Q" and b: "reach tree q b" "tree_at tree b = Inr n" "\<not> is_leaf n"
              for q b n
            proof (cases "q = nid")
              case qn: True
              from reach_cases_split [OF Inr False b(1) [unfolded qn]]
              consider "b = nid" | "reach tree (cleft node) b" | "reach tree (cright node) b" by blast
              then show ?thesis
              proof cases
                case 1
                then have "n = node" using b Inr by simp
                then show ?thesis using True tin by (simp add: si_def t_def)
              next
                case 2
                then show ?thesis using rq [of "cleft node" b n] b by simp
              next
                case 3
                then show ?thesis using rq [of "cright node" b n] b by simp
              qed
            next
              case False
              then have "q \<in> set Q'" using q Cons by simp
              then show ?thesis using rq [of q b n] b by simp
            qed
            then show "walk_post tree Q thresh th"
              using len sub fin unfolding walk_post_def by blast
          qed
        qed
      qed
    qed
  qed
qed

subsection \<open>The tree walker\<close>

lemma bind_sum_Some_Inr:
  "Option.bind m (\<lambda>res. case res of Inl e \<Rightarrow> Some (Inl e) | Inr x \<Rightarrow> f x) = Some (Inr y) \<longleftrightarrow>
   (\<exists>x. m = Some (Inr x) \<and> f x = Some (Inr y))"
proof (cases m)
  case None
  then show ?thesis by simp
next
  case (Some a)
  then show ?thesis by (cases a) simp_all
qed

lemma WalkTree_rec_leaf:
  assumes "tree_at tree nid = Inr node" "is_leaf node"
  shows "WalkTree_rec ext adapter tree counts nid =
         Some (Inr (PlainBlock [''sum += '' @ FloatToString ext (leaf_value node) @ '';'']))"
  using assms by (subst WalkTree_rec.simps) simp

lemma WalkTree_rec_split_iff:
  assumes "tree_at tree nid = Inr node" "\<not> is_leaf node"
  shows "WalkTree_rec ext adapter tree counts nid = Some (Inr block) \<longleftrightarrow>
         (\<exists>d l r. likely counts node = Inr d \<and>
            WalkTree_rec ext adapter tree counts (cleft node) = Some (Inr l) \<and>
            WalkTree_rec ext adapter tree counts (cright node) = Some (Inr r) \<and>
            block = IfElseBlock (mk_SplitCondition node adapter) l r d)"
proof (cases "likely counts node")
  case (Inl e)
  then show ?thesis using assms by (subst WalkTree_rec.simps) simp
next
  case (Inr d)
  then show ?thesis
    using assms by (subst WalkTree_rec.simps) (auto simp: bind_sum_Some_Inr)
qed

lemma valid_from_in_range:
  assumes "valid_from tree nid"
  shows "0 \<le> nid \<and> nid < int (length tree)"
  using assms by (cases rule: valid_from.cases) (auto simp: tree_at_def rd_def split: if_splits)

lemma likely_total:
  assumes "valid_from tree (cleft node)" "valid_from tree (cright node)"
    and "counts = [] \<or> length tree \<le> length counts"
  shows "likely counts node =
         Inr (if counts = [] then kNone
              else if counts ! nat (cleft node) > counts ! nat (cright node) then kLeft else kRight)"
  using valid_from_in_range [OF assms(1)] valid_from_in_range [OF assms(2)] assms(3)
  by (auto simp: likely_def rd_def)

lemma WalkTree_rec_total:
  assumes "valid_from tree nid" and "counts = [] \<or> length tree \<le> length counts"
  shows "\<exists>block. WalkTree_rec ext adapter tree counts nid = Some (Inr block)"
  using assms(1)
proof (induction rule: valid_from.induct)
  case (valid_leaf nid node)
  then show ?case by (simp add: WalkTree_rec_leaf)
next
  case (valid_split nid node)
  then obtain l r where
    "WalkTree_rec ext adapter tree counts (cleft node) = Some (Inr l)"
    "WalkTree_rec ext adapter tree counts (cright node) = Some (Inr r)" by auto
  then show ?case
    using WalkTree_rec_split_iff [OF valid_split(1,2), of ext adapter counts]
      likely_total [OF valid_split(3,4) assms(2)] by simp
qed

lemma WalkTree_rec_conditions:
  assumes "WalkTree_rec ext adapter tree counts nid = Some res"
  shows "\<forall>block. res = Inr block \<longrightarrow> (\<forall>c \<in> conditions block. \<exists>b node.
           reach tree nid b \<and> tree_at tree b = Inr node \<and> \<not> is_leaf node \<and>
           c = mk_SplitCondition node adapter)"
proof (rule WalkTree_rec.raw_induct
    [where P = "\<lambda>ext adapter tree counts nid res. \<forall>block. res = Inr block \<longrightarrow>
         (\<forall>c \<in> conditions block. \<exists>b node.
           reach tree nid b \<and> tree_at tree b = Inr node \<and> \<not> is_leaf node \<and>
           c = mk_SplitCondition node adapter)", OF _ assms])
  fix walk :: "'a External \<Rightarrow> 'a NumericAdapter \<Rightarrow> 'a Tree \<Rightarrow> nat list \<Rightarrow> int \<Rightarrow> (fault + 'a CodeBlock) option"
    and ext adapter tree counts nid res
  assume IH: "\<And>ext adapter tree counts nid res. walk ext adapter tree counts nid = Some res \<Longrightarrow>
      \<forall>block. res = Inr block \<longrightarrow> (\<forall>c \<in> conditions block. \<exists>b node.
           reach tree nid b \<and> tree_at tree b = Inr node \<and> \<not> is_leaf node \<and>
           c = mk_SplitCondition node adapter)"
    and body: "(case tree_at tree nid of
        Inl e \<Rightarrow> Some (Inl e)
      | Inr node \<Rightarrow>
          if is_leaf node then
            Some (Inr (PlainBlock [''sum += '' @ FloatToString ext (leaf_value node) @ '';'']))
          else
            (case likely counts node of
               Inl e \<Rightarrow> Some (Inl e)
             | Inr likely_direction' \<Rightarrow>
                 Option.bind (walk ext adapter tree counts (cleft node)) (\<lambda>lres.
                   case lres of
                     Inl e \<Rightarrow> Some (Inl e)
                   | Inr lblock \<Rightarrow>
                       Option.bind (walk ext adapter tree counts (cright node)) (\<lambda>rres.
                         case rres of
                           Inl e \<Rightarrow> Some (Inl e)
                         | Inr rblock \<Rightarrow>
                             Some (Inr (IfElseBlock (mk_SplitCondition node adapter)
                                          lblock rblock likely_direction')))))) = Some res"
  show "\<forall>block. res = Inr block \<longrightarrow> (\<forall>c \<in> conditions block. \<exists>b node.
           reach tree nid b \<and> tree_at tree b = Inr node \<and> \<not> is_leaf node \<and>
           c = mk_SplitCondition node adapter)"
  proof (intro allI impI)
    fix block assume res: "res = Inr block"
    show "\<forall>c \<in> conditions block. \<exists>b node.
           reach tree nid b \<and> tree_at tree b = Inr node \<and> \<not> is_leaf node \<and>
           c = mk_SplitCondition node adapter"
    proof (cases "tree_at tree nid")
      case (Inl e)
      then show ?thesis using body res by simp
    next
      case (Inr node)
      show ?thesis
      proof (cases "is_leaf node")
        case True
        then show ?thesis using body res Inr by auto
      next
        case False
        have "\<exists>d l r. walk ext adapter tree counts (cleft node) = Some (Inr l) \<and>
             walk ext adapter tree counts (cright node) = Some (Inr r) \<and>
             block = IfElseBlock (mk_SplitCondition node adapter) l r d"
        proof (cases "likely counts node")
          case (Inl e)
          then show ?thesis using body res Inr False by simp
        next
          case d: (Inr d)
          then show ?thesis using body res Inr False by (auto simp: bind_sum_Some_Inr)
        qed
        then obtain d l r where
          w: "walk ext adapter tree counts (cleft node) = Some (Inr l)"
             "walk ext adapter tree counts (cright node) = Some (Inr r)"
             "block = IfElseBlock (mk_SplitCondition node adapter) l r d"
          by blast
        have cl: "\<forall>c \<in> conditions l. \<exists>b n. reach tree (cleft node) b \<and> tree_at tree b = Inr n \<and>
                    \<not> is_leaf n \<and> c = mk_SplitCondition n adapter"
          using IH [OF w(1)] by simp
        have cr: "\<forall>c \<in> conditions r. \<exists>b n. reach tree (cright node) b \<and> tree_at tree b = Inr n \<and>
                    \<not> is_leaf n \<and> c = mk_SplitCondition n adapter"
          using IH [OF w(2)] by simp
        show ?thesis
        proof
          fix c assume "c \<in> conditions block"
          then consider "c = mk_SplitCondition node adapter" | "c \<in> conditions l" | "c \<in> conditions r"
            using w(3) by auto
          then show "\<exists>b n. reach tree nid b \<and> tree_at tree b = Inr n \<and> \<not> is_leaf n \<and>
                       c = mk_SplitCondition n adapter"
          proof cases
            case 1
            then show ?thesis using Inr False reach_self [of tree nid] by blast
          next
            case 2
            then show ?thesis using cl reach_child_left [OF Inr False] by blast
          next
            case 3
            then show ?thesis using cr reach_child_right [OF Inr False] by blast
          qed
        qed
      qed
    qed
  qed
qed

lemma trees_partial:
  fixes ts :: "'a::linorder Tree list"
  shows "ExtractCutPoints_trees ts thresh = Some (Inr th) \<Longrightarrow>
    length th = length thresh \<and>
    (\<forall>f < length thresh. thresh ! f \<subseteq> th ! f) \<and>
    ((\<forall>f < length thresh. finite (thresh ! f)) \<longrightarrow> (\<forall>f < length thresh. finite (th ! f))) \<and>
    (\<forall>tree \<in> set ts. \<forall>b node. reach tree 0 b \<and> tree_at tree b = Inr node \<and> \<not> is_leaf node \<longrightarrow>
        split_index node < length thresh \<and> threshold node \<in> th ! split_index node)"
proof (induction ts arbitrary: thresh)
  case Nil
  then show ?case by simp
next
  case (Cons tree rest)
  from Cons.prems obtain th1 where
    w: "ExtractCutPoints_walk tree [0] thresh = Some (Inr th1)"
    and r: "ExtractCutPoints_trees rest th1 = Some (Inr th)"
    by (auto simp: bindR_eq_Some_Inr)
  have p1: "walk_post tree [0] thresh th1" using walk_partial [OF w] by simp
  note p2 = Cons.IH [OF r]
  have len1: "length th1 = length thresh" using p1 by (simp add: walk_post_def)
  have len: "length th = length thresh" using p2 len1 by simp
  have sub: "\<forall>f < length thresh. thresh ! f \<subseteq> th ! f"
  proof (intro allI impI)
    fix f assume f: "f < length thresh"
    have "thresh ! f \<subseteq> th1 ! f" using p1 f by (simp add: walk_post_def)
    moreover have "th1 ! f \<subseteq> th ! f" using p2 f len1 by simp
    ultimately show "thresh ! f \<subseteq> th ! f" by simp
  qed
  have fin: "(\<forall>f < length thresh. finite (thresh ! f)) \<longrightarrow> (\<forall>f < length thresh. finite (th ! f))"
    using p1 p2 len1 by (simp add: walk_post_def)
  have mem: "split_index node < length thresh \<and> threshold node \<in> th ! split_index node"
    if t: "t \<in> set (tree # rest)" and b: "reach t 0 b" "tree_at t b = Inr node" "\<not> is_leaf node"
    for t b node
  proof (cases "t = tree")
    case True
    have a: "split_index node < length thresh \<and> threshold node \<in> th1 ! split_index node"
      using p1 b True unfolding walk_post_def by auto
    moreover have "th1 ! split_index node \<subseteq> th ! split_index node"
      using p2 a len1 by simp
    ultimately show ?thesis by auto
  next
    case False
    then have "t \<in> set rest" using t by simp
    then show ?thesis using p2 b len1 by auto
  qed
  show ?case using len sub fin mem by blast
qed

lemma ExtractCutPoints_partial:
  fixes model :: "'a::linorder Model"
  assumes e: "ExtractCutPoints model = Some (Inr cps)"
    and t: "tree \<in> set (trees model)"
    and b: "reach tree 0 b" "tree_at tree b = Inr node" "\<not> is_leaf node"
  shows "split_index node < length cps \<and> sorted (cps ! split_index node) \<and>
         distinct (cps ! split_index node) \<and> threshold node \<in> set (cps ! split_index node)"
proof -
  define n where "n = nat (num_features model)"
  define thresh :: "'a set list" where "thresh = replicate n {}"
  from e obtain th where th: "ExtractCutPoints_trees (trees model) thresh = Some (Inr th)"
    and cps: "cps = map (\<lambda>i. sorted_list_of_set (th ! i)) [0 ..< n]"
    by (auto simp: ExtractCutPoints_def bindR_eq_Some_Inr n_def thresh_def split: if_splits)
  note p = trees_partial [OF th]
  have len: "length th = n" using p by (simp add: thresh_def)
  have fin: "\<forall>f < n. finite (th ! f)" using p by (simp add: thresh_def)
  have si: "split_index node < n" "threshold node \<in> th ! split_index node"
    using p t b by (auto simp: thresh_def)
  show ?thesis using si fin by (simp add: cps)
qed

lemma Compile_Quantize_found:
  fixes cps :: "'a::linorder list list"
  assumes "split_index node < length cps" "sorted (cps ! split_index node)"
    "distinct (cps ! split_index node)" "threshold node \<in> set (cps ! split_index node)"
  shows "\<exists>p. p < length (cps ! split_index node) \<and> cps ! split_index node ! p = threshold node \<and>
     Compile (mk_SplitCondition node (Quantize_adapter cps)) =
       Inr (if default_left node
            then COr (CNot (NotMissing (split_index node)))
                     (QCmp (split_index node) (comparison_op node) (p * 2))
            else CAnd (NotMissing (split_index node))
                      (QCmp (split_index node) (comparison_op node) (p * 2)))"
proof -
  obtain p where p: "p < length (cps ! split_index node)" "cps ! split_index node ! p = threshold node"
    using assms(4) by (auto simp: in_set_conv_nth)
  have "numeric_adapter (Quantize_adapter cps) (comparison_op node) (split_index node) (threshold node)
        = Inr (QCmp (split_index node) (comparison_op node) (p * 2))"
    by (rule numeric_adapter_Quantize [OF assms(1-3) p])
  then show ?thesis using p by (auto simp: Compile_def mk_SplitCondition_def Let_def)
qed

lemma WalkTrees_Some_Inr:
  "WalkTrees ext adapter ann ts k = Some (Inr blocks) \<longleftrightarrow>
     length blocks = length ts \<and>
     (\<forall>i < length ts. (ann \<noteq> [] \<longrightarrow> k + i < length ann) \<and>
        WalkTree ext adapter (ts ! i) (counts_for ann (k + i)) = Some (Inr (blocks ! i)))"
proof (induction ts arbitrary: k blocks)
  case Nil
  then show ?case by auto
next
  case (Cons tree rest)
  have first: "(if ann \<noteq> [] then
              (case rd ann (int k) of
                 Inl e \<Rightarrow> Some (Inl e)
               | Inr counts \<Rightarrow> WalkTree ext adapter tree counts)
            else WalkTree ext adapter tree []) = Some (Inr b) \<longleftrightarrow>
        (ann \<noteq> [] \<longrightarrow> k < length ann) \<and>
        WalkTree ext adapter tree (counts_for ann k) = Some (Inr b)" for b
    by (auto simp: rd_def counts_for_def)
  show ?case
  proof
    assume "WalkTrees ext adapter ann (tree # rest) k = Some (Inr blocks)"
    then obtain b bs where b: "(ann \<noteq> [] \<longrightarrow> k < length ann)"
        "WalkTree ext adapter tree (counts_for ann k) = Some (Inr b)"
      and bs: "WalkTrees ext adapter ann rest (k + 1) = Some (Inr bs)" and eq: "blocks = b # bs"
      using first by (auto simp: bindR_eq_Some_Inr)
    have r: "length bs = length rest"
      "\<forall>i < length rest. (ann \<noteq> [] \<longrightarrow> k + 1 + i < length ann) \<and>
        WalkTree ext adapter (rest ! i) (counts_for ann (k + 1 + i)) = Some (Inr (bs ! i))"
      using Cons.IH [of "k + 1" bs] bs by simp_all
    show "length blocks = length (tree # rest) \<and>
     (\<forall>i < length (tree # rest). (ann \<noteq> [] \<longrightarrow> k + i < length ann) \<and>
        WalkTree ext adapter ((tree # rest) ! i) (counts_for ann (k + i))
          = Some (Inr (blocks ! i)))"
    proof
      show "length blocks = length (tree # rest)" using r(1) eq by simp
    next
      show "\<forall>i < length (tree # rest). (ann \<noteq> [] \<longrightarrow> k + i < length ann) \<and>
        WalkTree ext adapter ((tree # rest) ! i) (counts_for ann (k + i))
          = Some (Inr (blocks ! i))"
      proof (rule allI, rule impI)
        fix i assume i: "i < length (tree # rest)"
        show "(ann \<noteq> [] \<longrightarrow> k + i < length ann) \<and>
            WalkTree ext adapter ((tree # rest) ! i) (counts_for ann (k + i))
              = Some (Inr (blocks ! i))"
        proof (cases i)
          case 0
          then show ?thesis using b eq by simp
        next
          case (Suc j)
          then show ?thesis using r(2) i eq by simp
        qed
      qed
    qed
  next
    assume a: "length blocks = length (tree # rest) \<and>
     (\<forall>i < length (tree # rest). (ann \<noteq> [] \<longrightarrow> k + i < length ann) \<and>
        WalkTree ext adapter ((tree # rest) ! i) (counts_for ann (k + i))
          = Some (Inr (blocks ! i)))"
    then obtain b bs where eq: "blocks = b # bs" by (cases blocks) auto
    have h: "(ann \<noteq> [] \<longrightarrow> k < length ann)"
        "WalkTree ext adapter tree (counts_for ann k) = Some (Inr b)"
      using a eq by (auto dest: spec [of _ 0])
    have "length bs = length rest \<and>
      (\<forall>i < length rest. (ann \<noteq> [] \<longrightarrow> k + 1 + i < length ann) \<and>
        WalkTree ext adapter (rest ! i) (counts_for ann (k + 1 + i)) = Some (Inr (bs ! i)))"
    proof
      show "length bs = length rest" using a eq by simp
    next
      show "\<forall>i < length rest. (ann \<noteq> [] \<longrightarrow> k + 1 + i < length ann) \<and>
        WalkTree ext adapter (rest ! i) (counts_for ann (k + 1 + i)) = Some (Inr (bs ! i))"
      proof (rule allI, rule impI)
        fix i assume i: "i < length rest"
        from a have "(ann \<noteq> [] \<longrightarrow> k + Suc i < length ann) \<and>
          WalkTree ext adapter ((tree # rest) ! Suc i) (counts_for ann (k + Suc i))
            = Some (Inr (blocks ! Suc i))"
          using i by (auto dest!: spec [of _ "Suc i"])
        then show "(ann \<noteq> [] \<longrightarrow> k + 1 + i < length ann) \<and>
          WalkTree ext adapter (rest ! i) (counts_for ann (k + 1 + i)) = Some (Inr (bs ! i))"
          using eq by simp
      qed
    qed
    then have "WalkTrees ext adapter ann rest (k + 1) = Some (Inr bs)"
      using Cons.IH [of "k + 1" bs] by simp
    then show "WalkTrees ext adapter ann (tree # rest) k = Some (Inr blocks)"
      using first [of b] h eq by (simp add: bindR_eq_Some_Inr)
  qed
qed

subsection \<open>The assembled artifact\<close>

lemma Export_Some_Inr:
  "Export ext param policy model = Some (Inr artifact) \<longleftrightarrow>
   (\<exists>info annotation annotate blocks.
      Metadata_Init model (QuantizeFlag policy) = Some (Inr info) \<and>
      load_annotation ext param = Inr (annotation, annotate) \<and>
      WalkTrees ext (NumericAdapter policy info) annotation (trees model) 0 = Some (Inr blocks) \<and>
      artifact = SequenceBlock
        [PlainBlock (Preamble ext policy info @ [[]]
                     @ (if annotate then
                          [''#define LIKELY(x)     __builtin_expect(!!(x), 1)'',
                           ''#define UNLIKELY(x)   __builtin_expect(!!(x), 0)'']
                        else [])),
         FunctionBlock ''float predict_margin(union Entry* data)''
           (SequenceBlock ([PlainBlock [''float sum = 0.0f;''],
                            PlainBlock (Preprocessing policy info)]
                           @ blocks @ [PlainBlock [''return sum;'']]))])"
proof (cases "load_annotation ext param")
  case (Inl e)
  then show ?thesis by (simp add: Export_def bindR_eq_Some_Inr)
next
  case (Inr p)
  obtain annotation annotate where p: "p = (annotation, annotate)" by (cases p)
  show ?thesis
    by (auto simp: Export_def bindR_eq_Some_Inr Let_def Inr p)
qed

lemma Metadata_Init_Quantize:
  "Metadata_Init model (QuantizeFlag Quantize) = Some (Inr info) \<longleftrightarrow>
   (\<exists>cps. ExtractCutPoints model = Some (Inr cps) \<and>
      info = \<lparr>meta_num_features = num_features model, cut_pts = cps\<rparr>)"
  by (auto simp: Metadata_Init_def QuantizeFlag_def bindR_eq_Some_Inr)

lemma Metadata_Init_NoQuantize:
  "Metadata_Init model (QuantizeFlag NoQuantize) =
     Some (Inr \<lparr>meta_num_features = num_features model, cut_pts = []\<rparr>)"
  by (simp add: Metadata_Init_def QuantizeFlag_def)

lemma conditions_artifact:
  "conditions (SequenceBlock
        [PlainBlock pre,
         FunctionBlock proto
           (SequenceBlock ([PlainBlock a, PlainBlock b] @ blocks @ [PlainBlock z]))])
   = (\<Union>b \<in> set blocks. conditions b)"
  by simp

lemma Export_Quantize_conditions:
  fixes model :: "'a::linorder Model"
  assumes e: "Export ext param Quantize model = Some (Inr artifact)" and c: "c \<in> conditions artifact"
  shows "\<exists>cps tree b node. ExtractCutPoints model = Some (Inr cps) \<and> tree \<in> set (trees model) \<and>
     reach tree 0 b \<and> tree_at tree b = Inr node \<and> \<not> is_leaf node \<and>
     c = mk_SplitCondition node (Quantize_adapter cps)"
proof -
  from e obtain info annotation annotate blocks where
    i: "Metadata_Init model (QuantizeFlag Quantize) = Some (Inr info)"
    and w: "WalkTrees ext (NumericAdapter Quantize info) annotation (trees model) 0 = Some (Inr blocks)"
    and art: "artifact = SequenceBlock
        [PlainBlock (Preamble ext Quantize info @ [[]]
                     @ (if annotate then
                          [''#define LIKELY(x)     __builtin_expect(!!(x), 1)'',
                           ''#define UNLIKELY(x)   __builtin_expect(!!(x), 0)'']
                        else [])),
         FunctionBlock ''float predict_margin(union Entry* data)''
           (SequenceBlock ([PlainBlock [''float sum = 0.0f;''],
                            PlainBlock (Preprocessing Quantize info)]
                           @ blocks @ [PlainBlock [''return sum;'']]))]"
    unfolding Export_Some_Inr by blast
  have a: "conditions artifact = (\<Union>b \<in> set blocks. conditions b)"
    unfolding art by (rule conditions_artifact)
  from i obtain cps where cps: "ExtractCutPoints model = Some (Inr cps)"
    "info = \<lparr>meta_num_features = num_features model, cut_pts = cps\<rparr>"
    unfolding Metadata_Init_Quantize by blast
  have ad: "NumericAdapter Quantize info = Quantize_adapter cps"
    by (simp add: NumericAdapter_def cps(2))
  from c a obtain k where k: "k < length blocks" "c \<in> conditions (blocks ! k)"
    by (auto simp: in_set_conv_nth)
  have len: "length blocks = length (trees model)"
    and wk: "WalkTree ext (Quantize_adapter cps) (trees model ! k) (counts_for annotation (0 + k))
             = Some (Inr (blocks ! k))"
    using w k(1) unfolding WalkTrees_Some_Inr ad by auto
  have "\<exists>b node. reach (trees model ! k) 0 b \<and> tree_at (trees model ! k) b = Inr node \<and>
          \<not> is_leaf node \<and> c = mk_SplitCondition node (Quantize_adapter cps)"
    using WalkTree_rec_conditions [OF wk [unfolded WalkTree_def]] k(2) by blast
  moreover have "trees model ! k \<in> set (trees model)" using k(1) len by simp
  ultimately show ?thesis using cps(1) by blast
qed

lemma mk_SplitCondition_sel [simp]:
  "sc_split_index (mk_SplitCondition node adapter) = split_index node"
  "sc_default_left (mk_SplitCondition node adapter) = default_left node"
  "sc_op (mk_SplitCondition node adapter) = comparison_op node"
  "sc_threshold (mk_SplitCondition node adapter) = threshold node"
  "sc_numeric_adapter (mk_SplitCondition node adapter) = adapter"
  by (simp_all add: mk_SplitCondition_def)

subsection \<open>The concrete ensemble is valid\<close>

lemma valid_from_treeA: "valid_from treeA 0"
proof -
  have l: "valid_from treeA 1" by (rule valid_leaf [of _ _ "Leaf 10"]) (simp_all add: treeA_def tree_at_def rd_def)
  have r: "valid_from treeA 2" by (rule valid_leaf [of _ _ "Leaf (- 10)"]) (simp_all add: treeA_def tree_at_def rd_def)
  show ?thesis
    by (rule valid_split [of _ _ "Split 0 True kLT 5 1 2"])
       (use l r in \<open>simp_all add: treeA_def tree_at_def rd_def\<close>)
qed

lemma valid_from_treeB: "valid_from treeB 0"
  by (rule valid_leaf [of _ _ "Leaf 5"]) (simp_all add: treeB_def tree_at_def rd_def)

lemma reach_treeA: "i < length treeA \<Longrightarrow> reach treeA 0 (int i)"
proof -
  assume "i < length treeA"
  then consider "i = 0" | "i = 1" | "i = 2" by (auto simp: treeA_def less_Suc_eq)
  then show ?thesis
  proof cases
    case 1
    then show ?thesis by (simp add: reach_self)
  next
    case 2
    have "reach treeA 0 (cleft (Split 0 True kLT (5::int) 1 2))"
      by (rule reach_left [OF reach_self]) (simp_all add: treeA_def tree_at_def rd_def)
    then show ?thesis using 2 by simp
  next
    case 3
    have "reach treeA 0 (cright (Split 0 True kLT (5::int) 1 2))"
      by (rule reach_right [OF reach_self]) (simp_all add: treeA_def tree_at_def rd_def)
    then show ?thesis using 3 by simp
  qed
qed

lemma valid_model0: "valid_model model0"
proof -
  have "\<forall>node \<in> set treeA. \<not> is_leaf node \<longrightarrow> int (split_index node) < 1"
    by (simp add: treeA_def)
  then have a: "valid_tree 1 treeA"
    using valid_from_treeA reach_treeA unfolding valid_tree_def by blast
  have b: "valid_tree 1 treeB"
    using valid_from_treeB by (auto simp: valid_tree_def treeB_def reach_self)
  show ?thesis using a b by (simp add: valid_model_def model0_def)
qed

subsection \<open>The text of a condition and the preprocessing loop\<close>

lemma Compile_text_default_left:
  assumes "numeric_adapter adapter (comparison_op node) (split_index node) (threshold node) = Inr numeric"
    and "default_left node"
  shows "Compile_text out (mk_SplitCondition node adapter) =
         Inr (''!(data['' @ to_string (split_index node) @ ''].missing != -1) || ''
              @ show_cexpr out numeric)"
  using assms by (simp add: Compile_text_def Compile_def)

lemma Compile_text_default_right:
  assumes "numeric_adapter adapter (comparison_op node) (split_index node) (threshold node) = Inr numeric"
    and "\<not> default_left node"
  shows "Compile_text out (mk_SplitCondition node adapter) =
         Inr ('' (data['' @ to_string (split_index node) @ ''].missing != -1) && ''
              @ show_cexpr out numeric)"
  using assms by (simp add: Compile_text_def Compile_def)

lemma Compile_text_treeA:
  "Compile_text (float_out ext0) (mk_SplitCondition (treeA ! 0) NoQuantize_adapter)
     = Inr ''!(data[0].missing != -1) || data[0].fvalue < 5'' \<and>
   Compile_text (float_out ext0) (mk_SplitCondition (treeA ! 0) (Quantize_adapter [[5]]))
     = Inr ''!(data[0].missing != -1) || data[0].qvalue < 0'' \<and>
   Compile_text (float_out ext0) (mk_SplitCondition (treeC ! 0) NoQuantize_adapter)
     = Inr ''!(data[0].missing != -1) || data[0].fvalue < 1.23457e+06''"
  by (simp add: Compile_text_def Compile_def treeA_def treeC_def mk_SplitCondition_def
      numeric_adapter_def rd_def binary_search_def lower_bound.simps to_string.simps digit_def
      OpName_def ext0_def stream_float_def sig6_def dec_len.simps round_half_even_def Let_def
      strip_zeros_def)

lemma preprocess_loop_slots:
  fixes cps :: "'a::linorder list list"
  shows "0 \<le> i \<Longrightarrow> preprocess_loop cps n i data = Inr data' \<Longrightarrow>
    length data' = length data \<and>
    (\<forall>f. i \<le> int f \<and> int f < n \<longrightarrow>
       f < length data \<and>
       (case data ! f of
          IValue q \<Rightarrow> q = - 1 \<and> data' ! f = Missing
        | FValue v \<Rightarrow> (\<exists>q. quantize_feature cps v f = Inr q \<and> data' ! f = IValue q))) \<and>
    (\<forall>f < length data. int f < i \<or> n \<le> int f \<longrightarrow> data' ! f = data ! f)"
proof (induction cps n i data rule: preprocess_loop.induct)
  case (1 cps n i data)
  show ?case
  proof (cases "i < n")
    case False
    then have "data' = data" using 1(4) by (simp add: preprocess_loop.simps)
    then show ?thesis using False by auto
  next
    case True
    then obtain slot where slot: "rd data i = Inr slot"
      using 1(4) by (subst (asm) preprocess_loop.simps) (auto split: sum.splits)
    have il: "nat i < length data" "data ! nat i = slot"
      using slot 1(3) by (auto simp: rd_def split: if_splits)
    show ?thesis
    proof (cases slot)
      case (IValue q)
      have q: "q = - 1" and rec: "preprocess_loop cps n (i + 1) data = Inr data'"
        using 1(4) True slot IValue
        by (subst (asm) preprocess_loop.simps; simp split: if_splits)+
      have ih: "length data' = length data \<and>
        (\<forall>f. i + 1 \<le> int f \<and> int f < n \<longrightarrow>
           f < length data \<and>
           (case data ! f of
              IValue q \<Rightarrow> q = - 1 \<and> data' ! f = Missing
            | FValue v \<Rightarrow> (\<exists>q. quantize_feature cps v f = Inr q \<and> data' ! f = IValue q))) \<and>
        (\<forall>f < length data. int f < i + 1 \<or> n \<le> int f \<longrightarrow> data' ! f = data ! f)"
        using 1(2) [OF True slot IValue _ _ rec] q 1(3) by simp
      have A: "length data' = length data" using ih by simp
      have B: "f < length data \<and>
           (case data ! f of
              IValue q \<Rightarrow> q = - 1 \<and> data' ! f = Missing
            | FValue v \<Rightarrow> (\<exists>q. quantize_feature cps v f = Inr q \<and> data' ! f = IValue q))"
        if f: "i \<le> int f \<and> int f < n" for f
        proof (cases "int f = i")
          case True
          then have "f = nat i" by simp
          moreover have "data' ! nat i = data ! nat i" using ih il 1(3) by simp
          ultimately show ?thesis using il IValue q by simp
        next
          case False
          then show ?thesis using ih f by simp
        qed
      have C: "data' ! f = data ! f" if "f < length data" "int f < i \<or> n \<le> int f" for f
        using that ih by auto
      show ?thesis using A B C by blast
    next
      case (FValue v)
      obtain q where q: "quantize_feature cps v (nat i) = Inr q"
        and rec: "preprocess_loop cps n (i + 1) (data[nat i := IValue q]) = Inr data'"
        using 1(4) True slot FValue
        by (subst (asm) preprocess_loop.simps) (auto split: sum.splits)
      define data2 where "data2 = data[nat i := IValue q]"
      have ih: "length data' = length data2 \<and>
        (\<forall>f. i + 1 \<le> int f \<and> int f < n \<longrightarrow>
           f < length data2 \<and>
           (case data2 ! f of
              IValue q \<Rightarrow> q = - 1 \<and> data' ! f = Missing
            | FValue v \<Rightarrow> (\<exists>q. quantize_feature cps v f = Inr q \<and> data' ! f = IValue q))) \<and>
        (\<forall>f < length data2. int f < i + 1 \<or> n \<le> int f \<longrightarrow> data' ! f = data2 ! f)"
        using 1(1) [OF True slot FValue q _ rec] 1(3) by (simp add: data2_def)
      have A: "length data' = length data" using ih by (simp add: data2_def)
      have B: "f < length data \<and>
           (case data ! f of
              IValue q \<Rightarrow> q = - 1 \<and> data' ! f = Missing
            | FValue v \<Rightarrow> (\<exists>q. quantize_feature cps v f = Inr q \<and> data' ! f = IValue q))"
        if f: "i \<le> int f \<and> int f < n" for f
        proof (cases "int f = i")
          case True
          then have fi: "f = nat i" by simp
          have "data' ! nat i = data2 ! nat i" using ih il 1(3) by (simp add: data2_def)
          then have "data' ! nat i = IValue q" using il by (simp add: data2_def)
          then show ?thesis using il FValue q fi by simp
        next
          case False
          then have "f \<noteq> nat i" using f 1(3) by auto
          then have d2: "data2 ! f = data ! f" by (simp add: data2_def)
          have "i + 1 \<le> int f \<and> int f < n" using f False by simp
          then have "f < length data2 \<and>
           (case data2 ! f of
              IValue q \<Rightarrow> q = - 1 \<and> data' ! f = Missing
            | FValue v \<Rightarrow> (\<exists>q. quantize_feature cps v f = Inr q \<and> data' ! f = IValue q))"
            using ih by blast
          then show ?thesis unfolding d2 by (simp add: data2_def)
        qed
      have C: "data' ! f = data ! f" if f: "f < length data" "int f < i \<or> n \<le> int f" for f
      proof -
        have nn: "int (nat i) = i" using 1(3) by simp
        have "f \<noteq> nat i"
        proof
          assume "f = nat i"
          then have "int f = i" using nn by simp
          then show False using f(2) \<open>i < n\<close> by simp
        qed
        then have "data2 ! f = data ! f" by (simp add: data2_def)
        then show ?thesis using ih f by (auto simp: data2_def)
      qed
      show ?thesis using A B C by blast
    qed
  qed
qed

lemma Preprocessing_run_slot:
  fixes info :: "'a::linorder Metadata"
  assumes run: "Preprocessing_run ext policy info data = Inr data'"
    and f: "f < length data" "int f < meta_num_features info" and raw: "data ! f = raw_slot x"
  shows "slot_seen ext (NumericAdapter policy info) f x = Inr (data' ! f)"
proof (cases policy)
  case NoQuantize
  then have "data' = data" using run by (simp add: Preprocessing_run_def)
  then show ?thesis
    using raw NoQuantize by (cases x) (simp_all add: slot_seen_def NumericAdapter_def raw_slot_def)
next
  case Quantize
  then have r: "preprocess_loop (emitted_cut_pts ext (cut_pts info)) (meta_num_features info) 0 data
                = Inr data'"
    using run by (simp add: Preprocessing_run_def)
  have "case data ! f of
          IValue q \<Rightarrow> q = - 1 \<and> data' ! f = Missing
        | FValue v \<Rightarrow> (\<exists>q. quantize_feature (emitted_cut_pts ext (cut_pts info)) v f = Inr q
                           \<and> data' ! f = IValue q)"
    using preprocess_loop_slots [OF _ r] f by simp
  then show ?thesis
    using raw Quantize
    by (cases x) (auto simp: slot_seen_def NumericAdapter_def raw_slot_def quantize_emitted_feature)
qed

subsection \<open>Claim about cut-point extraction\<close>

text \<open>
  C7. For every valid ensemble, extraction returns, and for every feature id below the
  feature count its list is sorted, has no duplicates, and holds a value exactly when
  some split node on that feature in some tree has it as threshold. The result is a
  function of the ensemble, so that a second extraction yields the same lists.
\<close>

theorem extract_cut_points_exact:
  fixes model :: "'a::linorder Model"
  assumes "valid_model model"
  shows "\<exists>cps. ExtractCutPoints model = Some (Inr cps) \<and>
     length cps = nat (num_features model) \<and>
     (\<forall>f < nat (num_features model).
        sorted (cps ! f) \<and> distinct (cps ! f) \<and>
        (\<forall>t. t \<in> set (cps ! f) \<longleftrightarrow>
           (\<exists>tree \<in> set (trees model). \<exists>node \<in> set tree.
              \<not> is_leaf node \<and> split_index node = f \<and> threshold node = t)))"
  using assms by (rule ExtractCutPoints_valid)

theorem extract_cut_points_exact_witness:
  "valid_model model0 \<and>
   (\<exists>cps. ExtractCutPoints model0 = Some (Inr cps) \<and> length cps = 1 \<and>
      sorted (cps ! 0) \<and> distinct (cps ! 0) \<and> 5 \<in> set (cps ! 0) \<and> 7 \<notin> set (cps ! 0))"
proof -
  obtain cps where c: "ExtractCutPoints model0 = Some (Inr cps)"
    "length cps = nat (num_features model0)"
    "\<forall>f < nat (num_features model0).
        sorted (cps ! f) \<and> distinct (cps ! f) \<and>
        (\<forall>t. t \<in> set (cps ! f) \<longleftrightarrow>
           (\<exists>tree \<in> set (trees model0). \<exists>node \<in> set tree.
              \<not> is_leaf node \<and> split_index node = f \<and> threshold node = t))"
    using extract_cut_points_exact [OF valid_model0] by blast
  have n: "nat (num_features model0) = 1" by (simp add: model0_def)
  have s: "sorted (cps ! 0)" "distinct (cps ! 0)"
    and m: "\<And>t. t \<in> set (cps ! 0) \<longleftrightarrow>
           (\<exists>tree \<in> set (trees model0). \<exists>node \<in> set tree.
              \<not> is_leaf node \<and> split_index node = 0 \<and> threshold node = t)"
    using c(3) n by simp_all
  have "5 \<in> set (cps ! 0)" by (simp add: m model0_def treeA_def treeB_def)
  moreover have "7 \<notin> set (cps ! 0)" by (simp add: m model0_def treeA_def treeB_def)
  ultimately show ?thesis using valid_model0 c(1,2) n s by auto
qed

subsection \<open>Claim about the quantized lookup\<close>

text \<open>
  C4. When the quantized compiler returns an artifact, its cut points are those extracted
  from the ensemble it compiles, and for every condition of a conditional block in the
  artifact the exact-match binary search finds the threshold in the cut-point list of the
  condition's feature: rendering the condition yields the guarded comparison with twice
  the position found, and never the failure of the \<open>CHECK\<close>.
\<close>

theorem quantized_lookup_always_succeeds:
  fixes model :: "'a::linorder Model"
  assumes "Export ext param Quantize model = Some (Inr artifact)" and "c \<in> conditions artifact"
  shows "\<exists>cps p. ExtractCutPoints model = Some (Inr cps) \<and>
     sc_numeric_adapter c = Quantize_adapter cps \<and>
     binary_search (cps ! sc_split_index c) (sc_threshold c) = Some p \<and>
     p < length (cps ! sc_split_index c) \<and> cps ! sc_split_index c ! p = sc_threshold c \<and>
     Compile c =
       Inr (if sc_default_left c
            then COr (CNot (NotMissing (sc_split_index c))) (QCmp (sc_split_index c) (sc_op c) (p * 2))
            else CAnd (NotMissing (sc_split_index c)) (QCmp (sc_split_index c) (sc_op c) (p * 2))) \<and>
     Compile c \<noteq> Inl CheckFailed"
proof -
  obtain cps tree b node where e: "ExtractCutPoints model = Some (Inr cps)"
    and t: "tree \<in> set (trees model)" "reach tree 0 b" "tree_at tree b = Inr node" "\<not> is_leaf node"
    and c: "c = mk_SplitCondition node (Quantize_adapter cps)"
    using Export_Quantize_conditions [OF assms] by blast
  have f: "split_index node < length cps" "sorted (cps ! split_index node)"
    "distinct (cps ! split_index node)" "threshold node \<in> set (cps ! split_index node)"
    using ExtractCutPoints_partial [OF e t] by simp_all
  obtain p where p: "p < length (cps ! split_index node)" "cps ! split_index node ! p = threshold node"
    "Compile (mk_SplitCondition node (Quantize_adapter cps)) =
       Inr (if default_left node
            then COr (CNot (NotMissing (split_index node)))
                     (QCmp (split_index node) (comparison_op node) (p * 2))
            else CAnd (NotMissing (split_index node))
                      (QCmp (split_index node) (comparison_op node) (p * 2)))"
    using Compile_Quantize_found [OF f] by blast
  have bs: "binary_search (cps ! split_index node) (threshold node) = Some p"
    by (rule binary_search_finds [OF f(2,3) p(1,2)])
  show ?thesis
    using e p bs unfolding c by (intro exI [of _ cps] exI [of _ p]) simp
qed

theorem quantized_lookup_always_succeeds_witness:
  "\<exists>artifact.
     Export ext0 \<lparr>annotate_in = ''NULL'', quantize_param = 1\<rparr> Quantize model0 = Some (Inr artifact) \<and>
     SplitCondition 0 True kLT (5::int) (Quantize_adapter [[5]]) \<in> conditions artifact \<and>
     Compile (SplitCondition 0 True kLT (5::int) (Quantize_adapter [[5]]))
       = Inr (COr (CNot (NotMissing 0)) (QCmp 0 kLT 0))"
proof -
  have ec: "ExtractCutPoints model0 = Some (Inr [[5]])"
    by (simp add: ExtractCutPoints_def model0_def treeA_def treeB_def ExtractCutPoints_walk.simps
      tree_at_def rd_def)
  have tm: "trees model0 = [treeA, treeB]" "num_features model0 = 1"
    by (simp_all add: model0_def)
  have "\<exists>artifact.
     Export ext0 \<lparr>annotate_in = ''NULL'', quantize_param = 1\<rparr> Quantize model0 = Some (Inr artifact) \<and>
     SplitCondition 0 True kLT (5::int) (Quantize_adapter [[5]]) \<in> conditions artifact"
    by (simp add: Export_def Metadata_Init_def QuantizeFlag_def ec load_annotation_def
        NumericAdapter_def tm treeA_def treeB_def WalkTree_def WalkTree_rec.simps
        tree_at_def rd_def likely_def mk_SplitCondition_def)
  then obtain artifact where a:
    "Export ext0 \<lparr>annotate_in = ''NULL'', quantize_param = 1\<rparr> Quantize model0 = Some (Inr artifact)"
    "SplitCondition 0 True kLT (5::int) (Quantize_adapter [[5]]) \<in> conditions artifact" by blast
  obtain cps p where r: "ExtractCutPoints model0 = Some (Inr cps)"
    "p < length (cps ! 0)"
    "Compile (SplitCondition 0 True kLT (5::int) (Quantize_adapter [[5]])) =
       Inr (COr (CNot (NotMissing 0)) (QCmp 0 kLT (p * 2)))"
    using quantized_lookup_always_succeeds [OF a] by auto
  have "cps = [[5]]" using r(1) ec by simp
  then have "p = 0" using r(2) by simp
  then show ?thesis using a r(3) by auto
qed

subsection \<open>Claims about the likelihood hint\<close>

lemma likely_cases:
  assumes "likely counts node = Inr d"
  shows "(counts = [] \<longrightarrow> d = kNone) \<and>
         (counts \<noteq> [] \<longrightarrow> d = (if counts ! nat (cleft node) > counts ! nat (cright node)
                                then kLeft else kRight))"
  using assms by (auto simp: likely_def rd_def split: if_splits)

lemma WalkTree_rec_split_direction:
  assumes "tree_at tree nid = Inr node" "\<not> is_leaf node"
    and "WalkTree_rec ext adapter tree counts nid = Some (Inr block)"
  shows "likely counts node = Inr (likely_direction block)"
    and "condition block = mk_SplitCondition node adapter"
    and "WalkTree_rec ext adapter tree counts (cleft node) = Some (Inr (if_block block))"
    and "WalkTree_rec ext adapter tree counts (cright node) = Some (Inr (else_block block))"
  using assms(3) unfolding WalkTree_rec_split_iff [OF assms(1,2)] by auto

text \<open>
  C8. Let the walker compile a split node into a block. If counts are present (the count
  sequence is not empty) and the count of the left child exceeds that of the right
  child, the conditional carries the left hint; if the count of the right child exceeds
  that of the left child, the right hint; if the count sequence is empty, the hint is
  none. On a well-formed tree whose count sequence is empty or covers the nodes the
  walker does return a block.
\<close>

theorem hint_follows_larger_count:
  assumes "tree_at tree nid = Inr node" and "\<not> is_leaf node"
  shows "(\<forall>block. WalkTree_rec ext adapter tree counts nid = Some (Inr block) \<longrightarrow>
            (counts \<noteq> [] \<and> counts ! nat (cleft node) > counts ! nat (cright node)
               \<longrightarrow> likely_direction block = kLeft) \<and>
            (counts \<noteq> [] \<and> counts ! nat (cright node) > counts ! nat (cleft node)
               \<longrightarrow> likely_direction block = kRight) \<and>
            (counts = [] \<longrightarrow> likely_direction block = kNone)) \<and>
         (valid_from tree nid \<and> (counts = [] \<or> length tree \<le> length counts) \<longrightarrow>
            (\<exists>block. WalkTree_rec ext adapter tree counts nid = Some (Inr block)))"
proof (intro conjI allI impI)
  fix block assume w: "WalkTree_rec ext adapter tree counts nid = Some (Inr block)"
  note d = likely_cases [OF WalkTree_rec_split_direction(1) [OF assms w]]
  {
    assume "counts \<noteq> [] \<and> counts ! nat (cleft node) > counts ! nat (cright node)"
    then show "likely_direction block = kLeft" using d by simp
  next
    assume "counts \<noteq> [] \<and> counts ! nat (cright node) > counts ! nat (cleft node)"
    then show "likely_direction block = kRight" using d by simp
  next
    assume "counts = []"
    then show "likely_direction block = kNone" using d by simp
  }
next
  assume "valid_from tree nid \<and> (counts = [] \<or> length tree \<le> length counts)"
  then show "\<exists>block. WalkTree_rec ext adapter tree counts nid = Some (Inr block)"
    using WalkTree_rec_total by blast
qed

lemma tree_at_treeA_0: "tree_at treeA 0 = Inr (Split 0 True kLT 5 1 2)"
  by (simp add: treeA_def tree_at_def rd_def)

theorem hint_follows_larger_count_witness:
  "(\<exists>block. WalkTree_rec ext0 NoQuantize_adapter treeA [9, 6, 3] 0 = Some (Inr block) \<and>
             likely_direction block = kLeft) \<and>
   (\<exists>block. WalkTree_rec ext0 NoQuantize_adapter treeA [9, 3, 6] 0 = Some (Inr block) \<and>
             likely_direction block = kRight) \<and>
   (\<exists>block. WalkTree_rec ext0 NoQuantize_adapter treeA [] 0 = Some (Inr block) \<and>
             likely_direction block = kNone)"
proof -
  have n: "\<not> is_leaf (Split 0 True kLT (5::int) 1 2)" by simp
  note t = hint_follows_larger_count [OF tree_at_treeA_0 n, of ext0 NoQuantize_adapter]
  have l: "length treeA = 3" by (simp add: treeA_def)
  have a: "\<exists>block. WalkTree_rec ext0 NoQuantize_adapter treeA [9, 6, 3] 0 = Some (Inr block) \<and>
             likely_direction block = kLeft"
    using t [of "[9, 6, 3]"] valid_from_treeA l by auto
  have b: "\<exists>block. WalkTree_rec ext0 NoQuantize_adapter treeA [9, 3, 6] 0 = Some (Inr block) \<and>
             likely_direction block = kRight"
    using t [of "[9, 3, 6]"] valid_from_treeA l by auto
  have c: "\<exists>block. WalkTree_rec ext0 NoQuantize_adapter treeA [] 0 = Some (Inr block) \<and>
             likely_direction block = kNone"
    using t [of "[]"] valid_from_treeA by auto
  show ?thesis using a b c by simp
qed

text \<open>
  C9. Let the walker compile a split node with a count sequence that is not empty. Then
  the hint of the conditional is never none, and when the counts of the two children are
  equal it is the right hint. On a well-formed tree whose count sequence covers the nodes
  the walker does return a block.
\<close>

theorem tie_gives_right_hint:
  assumes "tree_at tree nid = Inr node" and "\<not> is_leaf node" and "counts \<noteq> []"
  shows "(\<forall>block. WalkTree_rec ext adapter tree counts nid = Some (Inr block) \<longrightarrow>
            likely_direction block \<noteq> kNone \<and>
            (counts ! nat (cleft node) = counts ! nat (cright node)
               \<longrightarrow> likely_direction block = kRight)) \<and>
         (valid_from tree nid \<and> length tree \<le> length counts \<longrightarrow>
            (\<exists>block. WalkTree_rec ext adapter tree counts nid = Some (Inr block)))"
proof (intro conjI allI impI)
  fix block assume w: "WalkTree_rec ext adapter tree counts nid = Some (Inr block)"
  note d = likely_cases [OF WalkTree_rec_split_direction(1) [OF assms(1,2) w]]
  show "likely_direction block \<noteq> kNone" using d assms(3) by simp
  {
    assume "counts ! nat (cleft node) = counts ! nat (cright node)"
    then show "likely_direction block = kRight" using d assms(3) by simp
  }
next
  assume "valid_from tree nid \<and> length tree \<le> length counts"
  then show "\<exists>block. WalkTree_rec ext adapter tree counts nid = Some (Inr block)"
    using WalkTree_rec_total by blast
qed

theorem tie_gives_right_hint_witness:
  "\<exists>block. WalkTree_rec ext0 NoQuantize_adapter treeA [8, 4, 4] 0 = Some (Inr block) \<and>
           likely_direction block = kRight"
proof -
  have n: "\<not> is_leaf (Split 0 True kLT (5::int) 1 2)" by simp
  have c: "[8, 4, 4 :: nat] \<noteq> []" by simp
  have l: "length treeA \<le> length [8, 4, 4 :: nat]" by (simp add: treeA_def)
  show ?thesis
    using tie_gives_right_hint [OF tree_at_treeA_0 n c, of ext0 NoQuantize_adapter] valid_from_treeA l
    by auto
qed

subsection \<open>Claim about missing values\<close>

lemma Compile_shape:
  assumes "numeric_adapter adapter (comparison_op node) (split_index node) (threshold node) = Inr numeric"
  shows "Compile (mk_SplitCondition node adapter) =
         Inr (if default_left node then COr (CNot (NotMissing (split_index node))) numeric
              else CAnd (NotMissing (split_index node)) numeric)"
  using assms by (simp add: Compile_def Let_def)


lemma eval_guard_missing:
  assumes "rd data (int f) = Inr Missing"
  shows "eval_cexpr ext data (COr (CNot (NotMissing f)) numeric) = Inr True"
    and "eval_cexpr ext data (CAnd (NotMissing f) numeric) = Inr False"
  using assms by simp_all


lemma taken_IfElseBlock:
  assumes "Compile c = Inr e" "eval_cexpr ext data e = Inr b"
  shows "taken ext (IfElseBlock c l r d) data = Inr (if b then l else r)"
  using assms by (simp add: taken_def)

lemma block_is_IfElseBlock:
  assumes "tree_at tree nid = Inr node" "\<not> is_leaf node"
    and "WalkTree_rec ext adapter tree counts nid = Some (Inr block)"
  shows "block = IfElseBlock (condition block) (if_block block) (else_block block) (likely_direction block)"
  using assms(3) unfolding WalkTree_rec_split_iff [OF assms(1,2)] by auto

text \<open>
  C6. Let the walker compile a split node into a block, let the numeric adapter render
  the node's comparison, and let the slot of the node's feature hold the missing marker.
  Then the condition of the block is the missing test joined by \<open>||\<close> to the numeric
  condition when \<open>default_left\<close> holds, and the negated missing test joined by \<open>&&\<close> to it
  otherwise; and the block that the conditional runs is the code of the left child when
  \<open>default_left\<close> holds and the code of the right child otherwise, whatever the threshold
  and the operator are. On a well-formed tree whose count sequence is empty or covers the
  nodes the walker does return a block.
\<close>

theorem missing_value_takes_default_side:
  assumes "tree_at tree nid = Inr node" and "\<not> is_leaf node"
    and "numeric_adapter adapter (comparison_op node) (split_index node) (threshold node) = Inr numeric"
    and "rd data (int (split_index node)) = Inr Missing"
  shows "(\<forall>block. WalkTree_rec ext adapter tree counts nid = Some (Inr block) \<longrightarrow>
            Compile (condition block) =
              Inr (if default_left node then COr (CNot (NotMissing (split_index node))) numeric
                   else CAnd (NotMissing (split_index node)) numeric) \<and>
            (\<exists>chosen. taken ext block data = Inr chosen \<and>
               WalkTree_rec ext adapter tree counts
                 (if default_left node then cleft node else cright node) = Some (Inr chosen))) \<and>
         (valid_from tree nid \<and> (counts = [] \<or> length tree \<le> length counts) \<longrightarrow>
            (\<exists>block. WalkTree_rec ext adapter tree counts nid = Some (Inr block)))"
proof (intro conjI allI impI)
  fix block assume w: "WalkTree_rec ext adapter tree counts nid = Some (Inr block)"
  note s = WalkTree_rec_split_direction [OF assms(1,2) w]
  define c where "c = (if default_left node then COr (CNot (NotMissing (split_index node))) numeric
                   else CAnd (NotMissing (split_index node)) numeric)"
  show comp: "Compile (condition block) =
              Inr (if default_left node then COr (CNot (NotMissing (split_index node))) numeric
                   else CAnd (NotMissing (split_index node)) numeric)"
    unfolding s(2) by (rule Compile_shape [OF assms(3)])
  have ev: "eval_cexpr ext data c = Inr (default_left node)"
    using eval_guard_missing [OF assms(4), of ext numeric] by (simp add: c_def)
  have "taken ext (IfElseBlock (condition block) (if_block block) (else_block block) (likely_direction block)) data
        = Inr (if default_left node then if_block block else else_block block)"
    by (rule taken_IfElseBlock [OF comp [folded c_def] ev])
  then have "taken ext block data = Inr (if default_left node then if_block block else else_block block)"
    using block_is_IfElseBlock [OF assms(1,2) w] by simp
  then show "\<exists>chosen. taken ext block data = Inr chosen \<and>
               WalkTree_rec ext adapter tree counts
                 (if default_left node then cleft node else cright node) = Some (Inr chosen)"
    using s(3,4) by simp
next
  assume "valid_from tree nid \<and> (counts = [] \<or> length tree \<le> length counts)"
  then show "\<exists>block. WalkTree_rec ext adapter tree counts nid = Some (Inr block)"
    using WalkTree_rec_total by blast
qed

theorem missing_value_takes_default_side_witness:
  "\<exists>block. WalkTree_rec ext0 NoQuantize_adapter treeA [] 0 = Some (Inr block) \<and>
     Compile (condition block) = Inr (COr (CNot (NotMissing 0)) (FCmp 0 kLT 5)) \<and>
     taken ext0 block [Missing] = Inr (PlainBlock [''sum += 10;''])"
proof -
  have n: "\<not> is_leaf (Split 0 True kLT (5::int) 1 2)" by simp
  have a: "numeric_adapter NoQuantize_adapter (comparison_op (Split 0 True kLT (5::int) 1 2))
             (split_index (Split 0 True kLT (5::int) 1 2)) (threshold (Split 0 True kLT (5::int) 1 2))
           = Inr (FCmp 0 kLT 5)"
    by (simp add: numeric_adapter_def)
  have m: "rd [Missing :: int Entry] (int (split_index (Split 0 True kLT (5::int) 1 2))) = Inr Missing"
    by (simp add: rd_def)
  have l: "WalkTree_rec ext0 NoQuantize_adapter treeA [] 1 = Some (Inr (PlainBlock [''sum += 10;'']))"
    by (simp add: WalkTree_rec.simps treeA_def tree_at_def rd_def ext0_def int_to_string_def
        to_string.simps digit_def)
  show ?thesis
    using missing_value_takes_default_side [OF tree_at_treeA_0 n a m, of ext0 "[]"] valid_from_treeA l
    by auto
qed

subsection \<open>Claim about the polarity of the condition\<close>








subsection \<open>Hints of a walk without counts\<close>

lemma WalkTree_rec_shape:
  assumes "WalkTree_rec ext adapter tree counts nid = Some (Inr block)"
  shows "(\<exists>ls. block = PlainBlock ls) \<or>
         (\<exists>node d l r. tree_at tree nid = Inr node \<and> \<not> is_leaf node \<and>
            likely counts node = Inr d \<and>
            WalkTree_rec ext adapter tree counts (cleft node) = Some (Inr l) \<and>
            WalkTree_rec ext adapter tree counts (cright node) = Some (Inr r) \<and>
            block = IfElseBlock (mk_SplitCondition node adapter) l r d)"
proof (cases "tree_at tree nid")
  case (Inl e)
  then show ?thesis using assms by (subst (asm) WalkTree_rec.simps) simp
next
  case (Inr node)
  show ?thesis
  proof (cases "is_leaf node")
    case True
    then show ?thesis using assms WalkTree_rec_leaf [OF Inr True, of ext adapter counts] by auto
  next
    case False
    then show ?thesis using assms Inr unfolding WalkTree_rec_split_iff [OF Inr False] by blast
  qed
qed

lemma WalkTree_rec_no_hints:
  fixes tree :: "'a Tree"
  shows "WalkTree_rec ext adapter tree [] nid = Some (Inr block) \<Longrightarrow> hints block \<subseteq> {kNone}"
proof (induction block arbitrary: nid)
  case (PlainBlock ls)
  show ?case by simp
next
  case (FunctionBlock p b)
  then show ?case using WalkTree_rec_shape [OF FunctionBlock.prems] by simp
next
  case (SequenceBlock bs)
  then show ?case using WalkTree_rec_shape [OF SequenceBlock.prems] by simp
next
  case (IfElseBlock c l r d)
  from WalkTree_rec_shape [OF IfElseBlock.prems]
  have "\<exists>node :: 'a Node. likely [] node = Inr d \<and>
    WalkTree_rec ext adapter tree [] (cleft node) = Some (Inr l) \<and>
    WalkTree_rec ext adapter tree [] (cright node) = Some (Inr r)"
    by auto
  then obtain node :: "'a Node" where
    n: "likely [] node = Inr d"
    "WalkTree_rec ext adapter tree [] (cleft node) = Some (Inr l)"
    "WalkTree_rec ext adapter tree [] (cright node) = Some (Inr r)"
    by blast
  have "d = kNone" using n(1) by (simp add: likely_def)
  then show ?case using IfElseBlock.IH(1) [OF n(2)] IfElseBlock.IH(2) [OF n(3)] by simp
qed

lemma load_annotation_set:
  assumes "annotate_in param \<noteq> ''NULL''"
  shows "load_annotation ext param = Inr (annotation, annotate) \<longleftrightarrow>
         read_annotation ext (annotate_in param) = Inr annotation \<and> annotate"
  using assms by (auto simp: load_annotation_def split: sum.splits)

subsection \<open>Claim about the shape of the annotation\<close>

lemma valid_from_nonempty:
  assumes "valid_from tree nid"
  shows "0 < length tree"
  using valid_from_in_range [OF assms] by auto

lemma WalkTree_rec_take:
  fixes tree :: "'a Tree"
  assumes v: "valid_from tree nid" and c: "counts = [] \<or> length tree \<le> length counts"
    and f: "FloatToString ext' = FloatToString ext"
  shows "WalkTree_rec ext' adapter tree (take (length tree) counts) nid
         = WalkTree_rec ext adapter tree counts nid"
  using v
proof (induction rule: valid_from.induct)
  case (valid_leaf nid node)
  then show ?case by (simp add: WalkTree_rec_leaf f)
next
  case (valid_split nid node)
  have c': "take (length tree) counts = [] \<or> length tree \<le> length (take (length tree) counts)"
    using c by auto
  have e: "take (length tree) counts = [] \<longleftrightarrow> counts = []"
    using valid_from_nonempty [OF valid_split(3)] by auto
  have il: "nat (cleft node) < length tree" "nat (cright node) < length tree"
    using valid_from_in_range [OF valid_split(3)] valid_from_in_range [OF valid_split(4)] by auto
  have lk: "likely (take (length tree) counts) node = likely counts node"
    using likely_total [OF valid_split(3,4) c] likely_total [OF valid_split(3,4) c'] e il
    by simp
  obtain d where d: "likely counts node = Inr d"
    using likely_total [OF valid_split(3,4) c] by simp
  obtain l where l: "WalkTree_rec ext adapter tree counts (cleft node) = Some (Inr l)"
    using WalkTree_rec_total [OF valid_split(3) c] by blast
  obtain r where r: "WalkTree_rec ext adapter tree counts (cright node) = Some (Inr r)"
    using WalkTree_rec_total [OF valid_split(4) c] by blast
  have a: "WalkTree_rec ext adapter tree counts nid
           = Some (Inr (IfElseBlock (mk_SplitCondition node adapter) l r d))"
    unfolding WalkTree_rec_split_iff [OF valid_split(1,2)] using d l r by simp
  have b: "WalkTree_rec ext' adapter tree (take (length tree) counts) nid
           = Some (Inr (IfElseBlock (mk_SplitCondition node adapter) l r d))"
    unfolding WalkTree_rec_split_iff [OF valid_split(1,2)]
    using d l r lk valid_split.IH by simp
  show ?case using a b by simp
qed

lemma counts_for_cut_to_shape:
  assumes "i < length ts" "length ts \<le> length annotation"
  shows "counts_for (cut_to_shape ts annotation) i = take (length (ts ! i)) (annotation ! i)"
  using assms by (auto simp: counts_for_def cut_to_shape_def)

lemma cut_to_shape_length:
  "length ts \<le> length annotation \<Longrightarrow> length (cut_to_shape ts annotation) = length ts"
  by (simp add: cut_to_shape_def)

lemma WalkTrees_total:
  fixes ts :: "'a Tree list"
  assumes "\<forall>i < length ts. valid_from (ts ! i) 0 \<and>
             (annotation \<noteq> [] \<longrightarrow> i < length annotation) \<and>
             (counts_for annotation i = [] \<or> length (ts ! i) \<le> length (counts_for annotation i))"
  shows "\<exists>blocks. WalkTrees ext adapter annotation ts 0 = Some (Inr blocks)"
proof -
  have "\<forall>i < length ts. \<exists>b. WalkTree ext adapter (ts ! i) (counts_for annotation i) = Some (Inr b)"
    using assms WalkTree_rec_total unfolding WalkTree_def by blast
  then obtain g where g: "\<forall>i < length ts.
      WalkTree ext adapter (ts ! i) (counts_for annotation i) = Some (Inr (g i))"
    by metis
  have "WalkTrees ext adapter annotation ts 0 = Some (Inr (map g [0 ..< length ts]))"
    unfolding WalkTrees_Some_Inr using g assms by simp
  then show ?thesis by blast
qed

lemma Metadata_Init_total:
  fixes model :: "'a::linorder Model"
  assumes "valid_model model"
  shows "\<exists>info. Metadata_Init model (QuantizeFlag policy) = Some (Inr info)"
proof (cases policy)
  case NoQuantize
  then show ?thesis by (simp add: Metadata_Init_NoQuantize)
next
  case Quantize
  obtain cps where "ExtractCutPoints model = Some (Inr cps)"
    using ExtractCutPoints_valid [OF assms] by blast
  then show ?thesis unfolding Quantize Metadata_Init_Quantize by simp
qed

lemma Export_surplus:
  fixes model :: "'a::linorder Model"
  assumes vm: "valid_model model" and ai: "annotate_in param \<noteq> ''NULL''"
    and outer: "length (trees model) \<le> length annotation"
    and inner: "\<forall>i < length (trees model).
                  annotation ! i = [] \<or> length (trees model ! i) \<le> length (annotation ! i)"
  shows "\<exists>artifact.
     Export (ext\<lparr>read_annotation := (\<lambda>path. Inr annotation)\<rparr>) param policy model
       = Some (Inr artifact) \<and>
     Export (ext\<lparr>read_annotation := (\<lambda>path. Inr (cut_to_shape (trees model) annotation))\<rparr>)
            param policy model
       = Some (Inr artifact)"
proof -
  define ts where "ts = trees model"
  define ext1 where "ext1 = ext\<lparr>read_annotation := (\<lambda>path. Inr annotation)\<rparr>"
  define ext2 where "ext2 = ext\<lparr>read_annotation := (\<lambda>path. Inr (cut_to_shape ts annotation))\<rparr>"
  obtain info where info: "Metadata_Init model (QuantizeFlag policy) = Some (Inr info)"
    using Metadata_Init_total [OF vm] by blast
  define adapter where "adapter = NumericAdapter policy info"
  have vf: "valid_from (ts ! i) 0" if "i < length ts" for i
    using vm that by (simp add: valid_model_def valid_tree_def ts_def)
  have cf: "counts_for annotation i = annotation ! i" if "i < length ts" for i
    using that outer by (auto simp: counts_for_def ts_def)
  have ok1: "\<forall>i < length ts. valid_from (ts ! i) 0 \<and>
             (annotation \<noteq> [] \<longrightarrow> i < length annotation) \<and>
             (counts_for annotation i = [] \<or> length (ts ! i) \<le> length (counts_for annotation i))"
    using vf cf outer inner by (auto simp: ts_def)
  obtain blocks where w1: "WalkTrees ext1 adapter annotation ts 0 = Some (Inr blocks)"
    using WalkTrees_total [OF ok1] by blast
  have len: "length blocks = length ts"
    and b1: "\<forall>i < length ts.
        WalkTree ext1 adapter (ts ! i) (counts_for annotation (0 + i)) = Some (Inr (blocks ! i))"
    using w1 unfolding WalkTrees_Some_Inr by simp_all
  have fs: "FloatToString ext2 = FloatToString ext1" by (simp add: ext1_def ext2_def)
  have b2: "WalkTree ext2 adapter (ts ! i) (counts_for (cut_to_shape ts annotation) (0 + i))
            = Some (Inr (blocks ! i))" if i: "i < length ts" for i
  proof -
    have "counts_for (cut_to_shape ts annotation) i = take (length (ts ! i)) (annotation ! i)"
      by (rule counts_for_cut_to_shape [OF i]) (use outer in \<open>simp add: ts_def\<close>)
    moreover have "WalkTree_rec ext2 adapter (ts ! i) (take (length (ts ! i)) (annotation ! i)) 0
          = WalkTree_rec ext1 adapter (ts ! i) (annotation ! i) 0"
      by (rule WalkTree_rec_take [OF vf [OF i] _ fs]) (use inner i in \<open>simp add: ts_def\<close>)
    moreover have "WalkTree ext1 adapter (ts ! i) (counts_for annotation (0 + i)) = Some (Inr (blocks ! i))"
      using b1 i by blast
    then have "WalkTree_rec ext1 adapter (ts ! i) (annotation ! i) 0 = Some (Inr (blocks ! i))"
      unfolding WalkTree_def using cf [OF i] by simp
    ultimately show ?thesis by (simp add: WalkTree_def)
  qed
  have in2: "cut_to_shape ts annotation \<noteq> [] \<longrightarrow> 0 + i < length (cut_to_shape ts annotation)"
    if "i < length ts" for i
    using that outer by (simp add: cut_to_shape_length ts_def)
  have w2: "WalkTrees ext2 adapter (cut_to_shape ts annotation) ts 0 = Some (Inr blocks)"
    unfolding WalkTrees_Some_Inr using len b2 in2 by simp
  have l1: "load_annotation ext1 param = Inr (annotation, True)"
    using ai by (simp add: load_annotation_def ext1_def)
  have l2: "load_annotation ext2 param = Inr (cut_to_shape ts annotation, True)"
    using ai by (simp add: load_annotation_def ext2_def)
  have pr: "Preamble ext2 policy info = Preamble ext1 policy info"
    by (cases policy) (simp_all add: Preamble_def ext1_def ext2_def)
  define artifact where "artifact = SequenceBlock
        [PlainBlock (Preamble ext1 policy info @ [[]]
                     @ (if True then
                          [''#define LIKELY(x)     __builtin_expect(!!(x), 1)'',
                           ''#define UNLIKELY(x)   __builtin_expect(!!(x), 0)'']
                        else [])),
         FunctionBlock ''float predict_margin(union Entry* data)''
           (SequenceBlock ([PlainBlock [''float sum = 0.0f;''],
                            PlainBlock (Preprocessing policy info)]
                           @ blocks @ [PlainBlock [''return sum;'']]))]"
  have e1: "Export ext1 param policy model = Some (Inr artifact)"
    unfolding Export_Some_Inr artifact_def
    using info l1 w1 by (auto simp: adapter_def ts_def)
  have e2: "Export ext2 param policy model = Some (Inr artifact)"
    unfolding Export_Some_Inr artifact_def
    using info l2 w2 pr by (auto simp: adapter_def ts_def)
  show ?thesis using e1 e2 by (auto simp: ext1_def ext2_def ts_def)
qed

text \<open>
  C5, as the code has it. The shape of a supplied annotation is not checked. When its
  outer array is at least as long as the tree count and every inner array in use is
  empty or at least as long as the node count of its tree, compilation of a valid
  ensemble does not abort: it returns the artifact that it returns for the annotation cut
  to the shape of the ensemble, so the entries beyond the tree count and the counts
  beyond the node count are ignored.
\<close>

theorem surplus_annotation_is_ignored:
  fixes model :: "'a::linorder Model"
  assumes "valid_model model" and "annotate_in param \<noteq> ''NULL''"
    and "length (trees model) \<le> length annotation"
    and "\<forall>i < length (trees model).
           annotation ! i = [] \<or> length (trees model ! i) \<le> length (annotation ! i)"
  shows "\<exists>artifact.
     Export (ext\<lparr>read_annotation := (\<lambda>path. Inr annotation)\<rparr>) param policy model
       = Some (Inr artifact) \<and>
     Export (ext\<lparr>read_annotation := (\<lambda>path. Inr (cut_to_shape (trees model) annotation))\<rparr>)
            param policy model
       = Some (Inr artifact)"
  using assms by (rule Export_surplus)


lemma Export_model0_annotated:
  assumes "annotation ! 0 ! 1 > annotation ! 0 ! 2" "3 \<le> length (annotation ! 0)"
    "2 \<le> length annotation"
  shows "Export (ext0\<lparr>read_annotation := (\<lambda>path. Inr annotation)\<rparr>)
            \<lparr>annotate_in = ''counts.json'', quantize_param = 0\<rparr> NoQuantize model0
         = Some (Inr annotated_artifact0)"
proof -
  have tm: "trees model0 = [treeA, treeB]" "num_features model0 = 1"
    by (simp_all add: model0_def)
  have ne: "annotation \<noteq> []" "annotation ! 0 \<noteq> []" using assms by auto
  have a': "WalkTree (ext0\<lparr>read_annotation := (\<lambda>path. Inr annotation)\<rparr>) NoQuantize_adapter treeA
              (annotation ! 0) =
           Some (Inr (IfElseBlock (SplitCondition 0 True kLT 5 NoQuantize_adapter)
                (PlainBlock [''sum += 10;'']) (PlainBlock [''sum += -10;'']) kLeft))"
    using assms ne
    by (simp add: WalkTree_def WalkTree_rec.simps treeA_def tree_at_def rd_def likely_def
        mk_SplitCondition_def ext0_def int_to_string_def to_string.simps digit_def)
  have b': "WalkTree (ext0\<lparr>read_annotation := (\<lambda>path. Inr annotation)\<rparr>) NoQuantize_adapter treeB
              (annotation ! Suc 0) =
           Some (Inr (PlainBlock [''sum += 5;'']))"
    by (simp add: WalkTree_def WalkTree_rec.simps treeB_def tree_at_def rd_def
        ext0_def int_to_string_def to_string.simps digit_def)
  show ?thesis
    using assms(3) ne(1)
    by (simp add: Export_def Metadata_Init_def QuantizeFlag_def load_annotation_def
        NumericAdapter_def tm a' b' rd_def Preamble_def Preprocessing_def annotated_artifact0_def)
qed

theorem surplus_annotation_is_ignored_witness:
  "\<exists>artifact.
     Export (ext0\<lparr>read_annotation := (\<lambda>path. Inr [[9, 6, 3, 7], [1], [4]])\<rparr>)
            \<lparr>annotate_in = ''counts.json'', quantize_param = 0\<rparr> NoQuantize model0
       = Some (Inr artifact) \<and>
     Export (ext0\<lparr>read_annotation := (\<lambda>path. Inr [[9, 6, 3], [1]])\<rparr>)
            \<lparr>annotate_in = ''counts.json'', quantize_param = 0\<rparr> NoQuantize model0
       = Some (Inr artifact)"
proof -
  have p: "annotate_in \<lparr>annotate_in = ''counts.json'', quantize_param = 0\<rparr> \<noteq> ''NULL''" by simp
  have tm: "trees model0 = [treeA, treeB]" by (simp add: model0_def)
  have o: "length (trees model0) \<le> length [[9, 6, 3, 7], [1], [4 :: nat]]" by (simp add: tm)
  have i: "\<forall>i < length (trees model0).
           [[9, 6, 3, 7], [1], [4 :: nat]] ! i = [] \<or>
           length (trees model0 ! i) \<le> length ([[9, 6, 3, 7], [1], [4 :: nat]] ! i)"
    by (simp add: tm treeA_def treeB_def less_Suc_eq)
  have c: "cut_to_shape (trees model0) [[9, 6, 3, 7], [1], [4]] = [[9, 6, 3], [1]]"
    by (simp add: cut_to_shape_def tm treeA_def treeB_def)
  show ?thesis
    using surplus_annotation_is_ignored [OF valid_model0 p o i, of ext0 NoQuantize]
    unfolding c .
qed

text \<open>
  C5, as the claim states it, fails on the concrete ensemble of two trees, whose first
  tree has three nodes: an annotation of three count sequences, and an annotation whose
  first count sequence has four counts, are both compiled without any failure, into the
  artifact of the annotation of matching shape.
\<close>

theorem annotation_mismatch_aborts_counterexample:
  "length [[9, 6, 3], [1], [4 :: nat]] \<noteq> length (trees model0) \<and>
   Export (ext0\<lparr>read_annotation := (\<lambda>path. Inr [[9, 6, 3], [1], [4]])\<rparr>)
          \<lparr>annotate_in = ''counts.json'', quantize_param = 0\<rparr> NoQuantize model0
     = Some (Inr annotated_artifact0) \<and>
   length ([[9, 6, 3, 7], [1 :: nat]] ! 0) \<noteq> length (trees model0 ! 0) \<and>
   Export (ext0\<lparr>read_annotation := (\<lambda>path. Inr [[9, 6, 3, 7], [1]])\<rparr>)
          \<lparr>annotate_in = ''counts.json'', quantize_param = 0\<rparr> NoQuantize model0
     = Some (Inr annotated_artifact0)"
proof -
  have a: "Export (ext0\<lparr>read_annotation := (\<lambda>path. Inr [[9, 6, 3], [1], [4]])\<rparr>)
          \<lparr>annotate_in = ''counts.json'', quantize_param = 0\<rparr> NoQuantize model0
     = Some (Inr annotated_artifact0)"
    by (rule Export_model0_annotated) simp_all
  have b: "Export (ext0\<lparr>read_annotation := (\<lambda>path. Inr [[9, 6, 3, 7], [1]])\<rparr>)
          \<lparr>annotate_in = ''counts.json'', quantize_param = 0\<rparr> NoQuantize model0
     = Some (Inr annotated_artifact0)"
    by (rule Export_model0_annotated) simp_all
  show ?thesis using a b by (simp add: model0_def treeA_def)
qed

subsection \<open>Claim about the branch-hint macros and the use of the counts\<close>

lemma Export_model0:
  assumes w: "WalkTree (ext0\<lparr>read_annotation := (\<lambda>path. Inr annotation)\<rparr>) NoQuantize_adapter treeA
                (counts_for annotation 0) =
              Some (Inr (IfElseBlock (SplitCondition 0 True kLT 5 NoQuantize_adapter)
                (PlainBlock [''sum += 10;'']) (PlainBlock [''sum += -10;'']) d))"
    and l: "annotation = [] \<or> 2 \<le> length annotation"
  shows "Export (ext0\<lparr>read_annotation := (\<lambda>path. Inr annotation)\<rparr>)
            \<lparr>annotate_in = ''counts.json'', quantize_param = 0\<rparr> NoQuantize model0
         = Some (Inr (artifact0 d))"
proof -
  have tm: "trees model0 = [treeA, treeB]" "num_features model0 = 1"
    by (simp_all add: model0_def)
  have b: "WalkTree (ext0\<lparr>read_annotation := (\<lambda>path. Inr annotation)\<rparr>) NoQuantize_adapter treeB
              counts = Some (Inr (PlainBlock [''sum += 5;'']))" for counts
    by (simp add: WalkTree_def WalkTree_rec.simps treeB_def tree_at_def rd_def
        ext0_def int_to_string_def to_string.simps digit_def)
  have ws: "WalkTrees (ext0\<lparr>read_annotation := (\<lambda>path. Inr annotation)\<rparr>) NoQuantize_adapter
              annotation [treeA, treeB] 0 =
            Some (Inr [IfElseBlock (SplitCondition 0 True kLT 5 NoQuantize_adapter)
                         (PlainBlock [''sum += 10;'']) (PlainBlock [''sum += -10;'']) d,
                       PlainBlock [''sum += 5;'']])"
    unfolding WalkTrees_Some_Inr using w b l by (auto simp: less_Suc_eq)
  show ?thesis
    by (simp add: Export_def Metadata_Init_def QuantizeFlag_def load_annotation_def
        NumericAdapter_def tm ws Preamble_def Preprocessing_def artifact0_def
        del: WalkTrees.simps)
qed

lemma WalkTree_treeA:
  "WalkTree ext NoQuantize_adapter treeA [] =
     Some (Inr (IfElseBlock (SplitCondition 0 True kLT 5 NoQuantize_adapter)
       (PlainBlock [''sum += '' @ FloatToString ext 10 @ '';''])
       (PlainBlock [''sum += '' @ FloatToString ext (- 10) @ '';'']) kNone))"
  "3 \<le> length counts \<Longrightarrow>
   WalkTree ext NoQuantize_adapter treeA counts =
     Some (Inr (IfElseBlock (SplitCondition 0 True kLT 5 NoQuantize_adapter)
       (PlainBlock [''sum += '' @ FloatToString ext 10 @ '';''])
       (PlainBlock [''sum += '' @ FloatToString ext (- 10) @ '';''])
       (if counts ! 1 > counts ! 2 then kLeft else kRight)))"
  by (auto simp: WalkTree_def WalkTree_rec.simps treeA_def tree_at_def rd_def likely_def
      mk_SplitCondition_def)

lemma FloatToString_ext0:
  "FloatToString ext0 10 = ''10''"
  "FloatToString ext0 (- 10) = ''-10''"
  by (simp_all add: ext0_def int_to_string_def to_string.simps digit_def)

text \<open>
  C10, as the code has it. Let \<open>annotate_in\<close> differ from \<open>NULL\<close>. Whenever the compiler
  returns an artifact, the annotation was loaded, the artifact is the preamble block
  followed by the function block, and the preamble holds the two macro definitions
  \<open>LIKELY\<close> and \<open>UNLIKELY\<close>, whatever was loaded. The block of tree \<open>i\<close> is the walk of
  that tree from its root, and the counts of tree \<open>i\<close> are consulted exactly when the
  loaded array is not empty and its entry \<open>i\<close> is not empty: then the conditional block
  of every split node of the tree carries the hint that the counts of the node's two
  children give (left when the left count is larger, right otherwise), and else it
  carries no hint; in both cases its branches are the walks of the two children. When
  no tree has counts, no conditional of the artifact carries a hint. And the compiler
  does return an artifact for a valid ensemble when the annotation loads and is empty,
  or has an entry for every tree that is empty or covers the nodes of the tree.
\<close>

theorem macros_always_counts_per_tree:
  fixes model :: "'a::linorder Model"
  assumes "annotate_in param \<noteq> ''NULL''"
  shows "(\<forall>artifact. Export ext param policy model = Some (Inr artifact) \<longrightarrow>
            (\<exists>info annotation preamble blocks.
               Metadata_Init model (QuantizeFlag policy) = Some (Inr info) \<and>
               read_annotation ext (annotate_in param) = Inr annotation \<and>
               artifact = SequenceBlock
                 [PlainBlock preamble,
                  FunctionBlock ''float predict_margin(union Entry* data)''
                    (SequenceBlock ([PlainBlock [''float sum = 0.0f;''],
                                     PlainBlock (Preprocessing policy info)]
                                    @ blocks @ [PlainBlock [''return sum;'']]))] \<and>
               ''#define LIKELY(x)     __builtin_expect(!!(x), 1)'' \<in> set preamble \<and>
               ''#define UNLIKELY(x)   __builtin_expect(!!(x), 0)'' \<in> set preamble \<and>
               length blocks = length (trees model) \<and>
               (\<forall>i < length (trees model).
                  WalkTree_rec ext (NumericAdapter policy info) (trees model ! i)
                    (counts_for annotation i) 0 = Some (Inr (blocks ! i)) \<and>
                  (\<forall>nid node b.
                     tree_at (trees model ! i) nid = Inr node \<and> \<not> is_leaf node \<and>
                     WalkTree_rec ext (NumericAdapter policy info) (trees model ! i)
                       (counts_for annotation i) nid = Some (Inr b) \<longrightarrow>
                     (\<exists>l r.
                        b = IfElseBlock (mk_SplitCondition node (NumericAdapter policy info)) l r
                              (if annotation \<noteq> [] \<and> annotation ! i \<noteq> []
                               then count_hint (annotation ! i) node else kNone) \<and>
                        WalkTree_rec ext (NumericAdapter policy info) (trees model ! i)
                          (counts_for annotation i) (cleft node) = Some (Inr l) \<and>
                        WalkTree_rec ext (NumericAdapter policy info) (trees model ! i)
                          (counts_for annotation i) (cright node) = Some (Inr r)))) \<and>
               ((\<forall>i < length (trees model). counts_for annotation i = []) \<longrightarrow>
                  hints artifact \<subseteq> {kNone}))) \<and>
         (\<forall>annotation.
            valid_model model \<and> read_annotation ext (annotate_in param) = Inr annotation \<and>
            (annotation \<noteq> [] \<longrightarrow> length (trees model) \<le> length annotation) \<and>
            (\<forall>i < length (trees model).
               counts_for annotation i = [] \<or>
               length (trees model ! i) \<le> length (counts_for annotation i)) \<longrightarrow>
            (\<exists>artifact. Export ext param policy model = Some (Inr artifact)))"
proof (intro conjI allI impI)
  fix artifact assume ex: "Export ext param policy model = Some (Inr artifact)"
  from ex obtain info annotation annotate blocks where
    i: "Metadata_Init model (QuantizeFlag policy) = Some (Inr info)"
    and la: "load_annotation ext param = Inr (annotation, annotate)"
    and w: "WalkTrees ext (NumericAdapter policy info) annotation (trees model) 0 = Some (Inr blocks)"
    and art: "artifact = SequenceBlock
        [PlainBlock (Preamble ext policy info @ [[]]
                     @ (if annotate then [''#define LIKELY(x)     __builtin_expect(!!(x), 1)'', ''#define UNLIKELY(x)   __builtin_expect(!!(x), 0)''] else [])),
         FunctionBlock ''float predict_margin(union Entry* data)''
           (SequenceBlock ([PlainBlock [''float sum = 0.0f;''],
                            PlainBlock (Preprocessing policy info)]
                           @ blocks @ [PlainBlock [''return sum;'']]))]"
    unfolding Export_Some_Inr by blast
  define adapter where "adapter = NumericAdapter policy info"
  have ra: "read_annotation ext (annotate_in param) = Inr annotation" and an: "annotate"
    using la unfolding load_annotation_set [OF assms] by simp_all
  define preamble where "preamble = Preamble ext policy info @ [[]] @ [''#define LIKELY(x)     __builtin_expect(!!(x), 1)'', ''#define UNLIKELY(x)   __builtin_expect(!!(x), 0)'']"
  have art': "artifact = SequenceBlock
        [PlainBlock preamble,
         FunctionBlock ''float predict_margin(union Entry* data)''
           (SequenceBlock ([PlainBlock [''float sum = 0.0f;''],
                            PlainBlock (Preprocessing policy info)]
                           @ blocks @ [PlainBlock [''return sum;'']]))]"
    using art an by (simp add: preamble_def)
  have m: "''#define LIKELY(x)     __builtin_expect(!!(x), 1)'' \<in> set preamble" "''#define UNLIKELY(x)   __builtin_expect(!!(x), 0)'' \<in> set preamble"
    by (simp_all add: preamble_def)
  have len: "length blocks = length (trees model)"
    and wk: "\<forall>i < length (trees model).
        WalkTree ext adapter (trees model ! i) (counts_for annotation (0 + i))
          = Some (Inr (blocks ! i))"
    using w unfolding WalkTrees_Some_Inr adapter_def by simp_all
  have root: "WalkTree_rec ext adapter (trees model ! i) (counts_for annotation i) 0
              = Some (Inr (blocks ! i))" if "i < length (trees model)" for i
    using wk that by (simp add: WalkTree_def)
  have node: "\<exists>l r.
              b = IfElseBlock (mk_SplitCondition node adapter) l r
                    (if annotation \<noteq> [] \<and> annotation ! i \<noteq> []
                     then count_hint (annotation ! i) node else kNone) \<and>
              WalkTree_rec ext adapter (trees model ! i) (counts_for annotation i) (cleft node)
                = Some (Inr l) \<and>
              WalkTree_rec ext adapter (trees model ! i) (counts_for annotation i) (cright node)
                = Some (Inr r)"
    if h: "tree_at (trees model ! i) nid = Inr node \<and> \<not> is_leaf node \<and>
           WalkTree_rec ext adapter (trees model ! i) (counts_for annotation i) nid = Some (Inr b)"
    for i nid node b
  proof -
    have t: "tree_at (trees model ! i) nid = Inr node" and nl: "\<not> is_leaf node"
      and wb: "WalkTree_rec ext adapter (trees model ! i) (counts_for annotation i) nid = Some (Inr b)"
      using h by simp_all
    obtain d l r where s: "likely (counts_for annotation i) node = Inr d"
      "WalkTree_rec ext adapter (trees model ! i) (counts_for annotation i) (cleft node) = Some (Inr l)"
      "WalkTree_rec ext adapter (trees model ! i) (counts_for annotation i) (cright node) = Some (Inr r)"
      "b = IfElseBlock (mk_SplitCondition node adapter) l r d"
      using wb unfolding WalkTree_rec_split_iff [OF t nl] by blast
    have d: "d = (if annotation \<noteq> [] \<and> annotation ! i \<noteq> []
                  then count_hint (annotation ! i) node else kNone)"
      using likely_cases [OF s(1)] by (auto simp: counts_for_def count_hint_def)
    show ?thesis using s(2,3,4) d by blast
  qed
  have nh: "(\<forall>i < length (trees model). counts_for annotation i = []) \<longrightarrow> hints artifact \<subseteq> {kNone}"
  proof
    assume e: "\<forall>i < length (trees model). counts_for annotation i = []"
    have "hints b \<subseteq> {kNone}" if "b \<in> set blocks" for b
    proof -
      from that obtain i where i: "i < length blocks" "b = blocks ! i" by (auto simp: in_set_conv_nth)
      then have "WalkTree_rec ext adapter (trees model ! i) [] 0 = Some (Inr b)"
        using root [of i] len e by simp
      then show ?thesis by (rule WalkTree_rec_no_hints)
    qed
    then show "hints artifact \<subseteq> {kNone}" unfolding art' by auto
  qed
  have per: "\<forall>i < length (trees model).
       WalkTree_rec ext adapter (trees model ! i) (counts_for annotation i) 0 = Some (Inr (blocks ! i)) \<and>
       (\<forall>nid node b.
          tree_at (trees model ! i) nid = Inr node \<and> \<not> is_leaf node \<and>
          WalkTree_rec ext adapter (trees model ! i) (counts_for annotation i) nid = Some (Inr b) \<longrightarrow>
          (\<exists>l r.
             b = IfElseBlock (mk_SplitCondition node adapter) l r
                   (if annotation \<noteq> [] \<and> annotation ! i \<noteq> []
                    then count_hint (annotation ! i) node else kNone) \<and>
             WalkTree_rec ext adapter (trees model ! i) (counts_for annotation i) (cleft node)
               = Some (Inr l) \<and>
             WalkTree_rec ext adapter (trees model ! i) (counts_for annotation i) (cright node)
               = Some (Inr r)))"
    using root node by blast
  show "\<exists>info annotation preamble blocks.
               Metadata_Init model (QuantizeFlag policy) = Some (Inr info) \<and>
               read_annotation ext (annotate_in param) = Inr annotation \<and>
               artifact = SequenceBlock
                 [PlainBlock preamble,
                  FunctionBlock ''float predict_margin(union Entry* data)''
                    (SequenceBlock ([PlainBlock [''float sum = 0.0f;''],
                                     PlainBlock (Preprocessing policy info)]
                                    @ blocks @ [PlainBlock [''return sum;'']]))] \<and>
               ''#define LIKELY(x)     __builtin_expect(!!(x), 1)'' \<in> set preamble \<and>
               ''#define UNLIKELY(x)   __builtin_expect(!!(x), 0)'' \<in> set preamble \<and>
               length blocks = length (trees model) \<and>
               (\<forall>i < length (trees model).
                  WalkTree_rec ext (NumericAdapter policy info) (trees model ! i)
                    (counts_for annotation i) 0 = Some (Inr (blocks ! i)) \<and>
                  (\<forall>nid node b.
                     tree_at (trees model ! i) nid = Inr node \<and> \<not> is_leaf node \<and>
                     WalkTree_rec ext (NumericAdapter policy info) (trees model ! i)
                       (counts_for annotation i) nid = Some (Inr b) \<longrightarrow>
                     (\<exists>l r.
                        b = IfElseBlock (mk_SplitCondition node (NumericAdapter policy info)) l r
                              (if annotation \<noteq> [] \<and> annotation ! i \<noteq> []
                               then count_hint (annotation ! i) node else kNone) \<and>
                        WalkTree_rec ext (NumericAdapter policy info) (trees model ! i)
                          (counts_for annotation i) (cleft node) = Some (Inr l) \<and>
                        WalkTree_rec ext (NumericAdapter policy info) (trees model ! i)
                          (counts_for annotation i) (cright node) = Some (Inr r)))) \<and>
               ((\<forall>i < length (trees model). counts_for annotation i = []) \<longrightarrow>
                  hints artifact \<subseteq> {kNone})"
    using i ra art' m len per [unfolded adapter_def] nh by blast
next
  fix annotation
  assume h: "valid_model model \<and> read_annotation ext (annotate_in param) = Inr annotation \<and>
            (annotation \<noteq> [] \<longrightarrow> length (trees model) \<le> length annotation) \<and>
            (\<forall>i < length (trees model).
               counts_for annotation i = [] \<or>
               length (trees model ! i) \<le> length (counts_for annotation i))"
  then have vm: "valid_model model" by simp
  obtain info where info: "Metadata_Init model (QuantizeFlag policy) = Some (Inr info)"
    using Metadata_Init_total [OF vm] by blast
  have vf: "valid_from (trees model ! i) 0" if "i < length (trees model)" for i
    using vm that by (simp add: valid_model_def valid_tree_def)
  have ok: "\<forall>i < length (trees model). valid_from (trees model ! i) 0 \<and>
             (annotation \<noteq> [] \<longrightarrow> i < length annotation) \<and>
             (counts_for annotation i = [] \<or>
              length (trees model ! i) \<le> length (counts_for annotation i))"
    using vf h by auto
  obtain blocks where w: "WalkTrees ext (NumericAdapter policy info) annotation (trees model) 0
                          = Some (Inr blocks)"
    using WalkTrees_total [OF ok] by blast
  have l: "load_annotation ext param = Inr (annotation, True)"
    using assms h by (simp add: load_annotation_def)
  show "\<exists>artifact. Export ext param policy model = Some (Inr artifact)"
    unfolding Export_Some_Inr using info l w by blast
qed

theorem macros_always_counts_per_tree_witness:
  "\<exists>artifact preamble blocks.
     Export (ext0\<lparr>read_annotation := (\<lambda>path. Inr [[9, 6, 3], [1]])\<rparr>)
            \<lparr>annotate_in = ''counts.json'', quantize_param = 0\<rparr> NoQuantize model0
       = Some (Inr artifact) \<and>
     artifact = SequenceBlock
       [PlainBlock preamble,
        FunctionBlock ''float predict_margin(union Entry* data)''
          (SequenceBlock ([PlainBlock [''float sum = 0.0f;''], PlainBlock []]
                          @ blocks @ [PlainBlock [''return sum;'']]))] \<and>
     ''#define LIKELY(x)     __builtin_expect(!!(x), 1)'' \<in> set preamble \<and>
     ''#define UNLIKELY(x)   __builtin_expect(!!(x), 0)'' \<in> set preamble \<and>
     length blocks = 2 \<and>
     likely_direction (blocks ! 0) = kLeft"
proof -
  define ext1 where "ext1 = ext0\<lparr>read_annotation := (\<lambda>path. Inr [[9, 6, 3], [1]])\<rparr>"
  define param where "param = \<lparr>annotate_in = ''counts.json'', quantize_param = 0\<rparr>"
  have p: "annotate_in param \<noteq> ''NULL''" by (simp add: param_def)
  have tm: "trees model0 = [treeA, treeB]" by (simp add: model0_def)
  have r: "read_annotation ext1 (annotate_in param) = Inr [[9, 6, 3], [1]]"
    by (simp add: ext1_def)
  note t = macros_always_counts_per_tree [OF p, of ext1 NoQuantize model0]
  have pre: "valid_model model0 \<and> read_annotation ext1 (annotate_in param) = Inr [[9, 6, 3], [1]] \<and>
            ([[9, 6, 3], [1]] \<noteq> ([] :: Annotation) \<longrightarrow> length (trees model0) \<le> length [[9 :: nat, 6, 3], [1]]) \<and>
            (\<forall>i < length (trees model0).
               counts_for [[9, 6, 3], [1]] i = [] \<or>
               length (trees model0 ! i) \<le> length (counts_for [[9, 6, 3], [1]] i))"
    using valid_model0 r by (simp add: tm counts_for_def less_Suc_eq treeA_def treeB_def)
  obtain artifact where e: "Export ext1 param NoQuantize model0 = Some (Inr artifact)"
    using t pre by blast
  from t [THEN conjunct1, rule_format, OF e]
  obtain info annotation preamble blocks where
    i: "Metadata_Init model0 (QuantizeFlag NoQuantize) = Some (Inr info)"
    and ra: "read_annotation ext1 (annotate_in param) = Inr annotation"
    and a: "artifact = SequenceBlock
       [PlainBlock preamble,
        FunctionBlock ''float predict_margin(union Entry* data)''
          (SequenceBlock ([PlainBlock [''float sum = 0.0f;''], PlainBlock (Preprocessing NoQuantize info)]
                          @ blocks @ [PlainBlock [''return sum;'']]))]"
    and m: "''#define LIKELY(x)     __builtin_expect(!!(x), 1)'' \<in> set preamble" "''#define UNLIKELY(x)   __builtin_expect(!!(x), 0)'' \<in> set preamble"
    and len: "length blocks = length (trees model0)"
    and per: "\<forall>i < length (trees model0).
        WalkTree_rec ext1 (NumericAdapter NoQuantize info) (trees model0 ! i)
          (counts_for annotation i) 0 = Some (Inr (blocks ! i)) \<and>
        (\<forall>nid node b.
           tree_at (trees model0 ! i) nid = Inr node \<and> \<not> is_leaf node \<and>
           WalkTree_rec ext1 (NumericAdapter NoQuantize info) (trees model0 ! i)
             (counts_for annotation i) nid = Some (Inr b) \<longrightarrow>
           (\<exists>l r.
              b = IfElseBlock (mk_SplitCondition node (NumericAdapter NoQuantize info)) l r
                    (if annotation \<noteq> [] \<and> annotation ! i \<noteq> []
                     then count_hint (annotation ! i) node else kNone) \<and>
              WalkTree_rec ext1 (NumericAdapter NoQuantize info) (trees model0 ! i)
                (counts_for annotation i) (cleft node) = Some (Inr l) \<and>
              WalkTree_rec ext1 (NumericAdapter NoQuantize info) (trees model0 ! i)
                (counts_for annotation i) (cright node) = Some (Inr r)))"
    by blast
  have ann: "annotation = [[9, 6, 3], [1]]" using ra r by simp
  have r0: "WalkTree_rec ext1 (NumericAdapter NoQuantize info) treeA (counts_for [[9, 6, 3], [1]] 0) 0
            = Some (Inr (blocks ! 0))"
    using per [rule_format, of 0, THEN conjunct1] by (simp add: tm ann)
  have "\<exists>l r. blocks ! 0 =
           IfElseBlock (mk_SplitCondition (Split 0 True kLT 5 1 2) (NumericAdapter NoQuantize info)) l r
             (if [[9, 6, 3], [1]] \<noteq> ([] :: Annotation) \<and> [[9, 6, 3], [1]] ! 0 \<noteq> ([] :: nat list)
              then count_hint ([[9, 6, 3], [1]] ! 0) (Split 0 True kLT (5::int) 1 2) else kNone)"
    using per [unfolded ann, rule_format, of 0, THEN conjunct2, rule_format,
        of 0 "Split 0 True kLT 5 1 2" "blocks ! 0"] tree_at_treeA_0 r0
    by (auto simp: tm)
  then obtain l r where "blocks ! 0 =
           IfElseBlock (mk_SplitCondition (Split 0 True kLT 5 1 2) (NumericAdapter NoQuantize info)) l r
             (count_hint [9, 6, 3] (Split 0 True kLT (5::int) 1 2))"
    by auto
  then have "likely_direction (blocks ! 0) = count_hint [9, 6, 3] (Split 0 True kLT (5::int) 1 2)"
    by simp
  then have d: "likely_direction (blocks ! 0) = kLeft" by (simp add: count_hint_def)
  have pp: "Preprocessing NoQuantize info = []" by (simp add: Preprocessing_def)
  show ?thesis
    using e a m len d by (auto simp: ext1_def param_def tm pp)
qed

text \<open>
  C10, as the claim states it, fails for the first ensemble and the loaded annotation
  \<open>[[], []]\<close>: the array is not empty, yet it holds no count, the walker is handed an
  empty count sequence for either tree, and the artifact is the one of the empty
  annotation, whose conditional carries no hint; with the counts \<open>[[9, 6, 3], [1]]\<close> the
  conditional of tree A carries the hint left.
\<close>

theorem counts_consulted_iff_loaded_counterexample:
  "[[], []] \<noteq> ([] :: Annotation) \<and>
   counts_for [[], []] 0 = [] \<and>
   counts_for [[], []] 1 = [] \<and>
   likely (counts_for [[], []] 0) (treeA ! 0) = Inr kNone \<and>
   Export (ext0\<lparr>read_annotation := (\<lambda>path. Inr [[], []])\<rparr>)
          \<lparr>annotate_in = ''counts.json'', quantize_param = 0\<rparr> NoQuantize model0
     = Some (Inr (artifact0 kNone)) \<and>
   Export (ext0\<lparr>read_annotation := (\<lambda>path. Inr [])\<rparr>)
          \<lparr>annotate_in = ''counts.json'', quantize_param = 0\<rparr> NoQuantize model0
     = Some (Inr (artifact0 kNone)) \<and>
   hints (artifact0 kNone) = {kNone} \<and>
   Export (ext0\<lparr>read_annotation := (\<lambda>path. Inr [[9, 6, 3], [1]])\<rparr>)
          \<lparr>annotate_in = ''counts.json'', quantize_param = 0\<rparr> NoQuantize model0
     = Some (Inr (artifact0 kLeft)) \<and>
   hints (artifact0 kLeft) = {kLeft}"
proof -
  have a: "Export (ext0\<lparr>read_annotation := (\<lambda>path. Inr [[], []])\<rparr>)
          \<lparr>annotate_in = ''counts.json'', quantize_param = 0\<rparr> NoQuantize model0
     = Some (Inr (artifact0 kNone))"
    by (rule Export_model0) (simp_all add: counts_for_def WalkTree_treeA FloatToString_ext0)
  have b: "Export (ext0\<lparr>read_annotation := (\<lambda>path. Inr [])\<rparr>)
          \<lparr>annotate_in = ''counts.json'', quantize_param = 0\<rparr> NoQuantize model0
     = Some (Inr (artifact0 kNone))"
    by (rule Export_model0) (simp_all add: counts_for_def WalkTree_treeA FloatToString_ext0)
  have c: "Export (ext0\<lparr>read_annotation := (\<lambda>path. Inr [[9, 6, 3], [1]])\<rparr>)
          \<lparr>annotate_in = ''counts.json'', quantize_param = 0\<rparr> NoQuantize model0
     = Some (Inr (artifact0 kLeft))"
    by (rule Export_model0) (simp_all add: counts_for_def WalkTree_treeA FloatToString_ext0)
  have d: "likely (counts_for [[], []] 0) (treeA ! 0) = Inr kNone"
    by (simp add: counts_for_def likely_def)
  have e: "hints (artifact0 kNone) = {kNone}" "hints (artifact0 kLeft) = {kLeft}"
    by (simp_all add: artifact0_def)
  show ?thesis using a b c d e by (simp add: counts_for_def)
qed

end
